theory Spec2Isabelle
  imports Complex_Main
begin

section \<open>The C library as the lexer uses it\<close>

text \<open>
  Characters travel through the program as C \<open>int\<close>s: \<open>getchar\<close> returns the byte read
  (0 to 255) or \<open>EOF\<close>, and the lexer's tokens are either such a byte or one of the negative
  members of \<open>enum Token\<close>.
\<close>

definition EOF :: int where
  "EOF = - 1"

definition tok_eof :: int where
  "tok_eof = - 1"

definition tok_def :: int where
  "tok_def = - 2"

definition tok_extern :: int where
  "tok_extern = - 3"

definition tok_identifier :: int where
  "tok_identifier = - 4"

definition tok_number :: int where
  "tok_number = - 5"

lemmas tok_defs = EOF_def tok_eof_def tok_def_def tok_extern_def tok_identifier_def
  tok_number_def

text \<open>
  The classification functions of \<open><cctype>\<close> in the "C" locale (the program never calls
  \<open>setlocale\<close>). All of them are false on \<open>EOF\<close> and on bytes above 127.
\<close>

definition isspace :: "int \<Rightarrow> bool" where
  "isspace c = (c = 32 \<or> (9 \<le> c \<and> c \<le> 13))"

definition isdigit :: "int \<Rightarrow> bool" where
  "isdigit c = (48 \<le> c \<and> c \<le> 57)"

definition isalpha :: "int \<Rightarrow> bool" where
  "isalpha c = ((65 \<le> c \<and> c \<le> 90) \<or> (97 \<le> c \<and> c \<le> 122))"

definition isalnum :: "int \<Rightarrow> bool" where
  "isalnum c = (isalpha c \<or> isdigit c)"

definition isascii :: "int \<Rightarrow> bool" where
  "isascii c = (0 \<le> c \<and> c \<le> 127)"

lemmas ctype_defs = isspace_def isdigit_def isalpha_def isalnum_def isascii_def

text \<open>
  A C \<open>double\<close> is an IEC 60559 binary64 value. The program only ever holds the zero its
  statics start with and results of \<open>strtod\<close> on strings of digits and dots, which are
  never negative and never a NaN: such a value is a finite binary64 number, kept as the
  rational it denotes, or \<open>HUGE_VAL\<close> (positive infinity), which \<open>strtod\<close> returns when the
  number is out of range.
\<close>

datatype double = Finite rat | HUGE_VAL

text \<open>The number of binary digits of a natural number.\<close>

fun bit_length :: "nat \<Rightarrow> nat" where
  "bit_length n = (if n = 0 then 0 else bit_length (n div 2) + 1)"

declare bit_length.simps [simp del]

text \<open>The integer nearest to \<open>num / den\<close>, the even one of the two when it lies halfway.\<close>

definition round_half_even :: "nat \<Rightarrow> nat \<Rightarrow> nat" where
  "round_half_even num den =
     (let k = num div den; r = num mod den
      in if 2 * r < den then k
         else if den < 2 * r then k + 1
         else if even k then k else k + 1)"

text \<open>
  The binary64 value of the fraction \<open>p / q\<close> under round-to-nearest, ties to even, the
  rounding mode a C program starts in and this one never changes. \<open>L\<close> is the binary
  exponent of the fraction, \<open>2 ^ L \<le> p / q < 2 ^ (L + 1)\<close>, found from the bit lengths; a
  binary64 number near the fraction is a multiple \<open>m * 2 ^ e\<close> with \<open>e = L - 52\<close>, or
  \<open>e = -1074\<close> in the subnormal range, and \<open>m\<close> is the fraction divided by \<open>2 ^ e\<close> and
  rounded. A result of \<open>2 ^ 1024\<close> or more is out of range.
\<close>

definition to_binary64 :: "nat \<Rightarrow> nat \<Rightarrow> double" where
  "to_binary64 p q =
     (if p = 0 then Finite 0
      else
        (let d = int (bit_length p) - int (bit_length q);
             L = (if (if 0 \<le> d then q * 2 ^ nat d \<le> p else q \<le> p * 2 ^ nat (- d))
                  then d else d - 1);
             e = max (L - 52) (- 1074)
         in if 971 < e then HUGE_VAL
            else
              (let m = (if 0 \<le> e then round_half_even p (q * 2 ^ nat e)
                        else round_half_even (p * 2 ^ nat (- e)) q)
               in if e = 971 \<and> m = 2 ^ 53 then HUGE_VAL
                  else if 0 \<le> e then Finite (of_nat (m * 2 ^ nat e))
                  else Finite (of_nat m / 2 ^ nat (- e)))))"

text \<open>
  \<open>strtod\<close> on the strings the lexer hands to it, which hold digits and dots only. The C
  library converts the longest initial part that is a decimal number: digits, optionally
  one dot and more digits, with at least one digit in all. When there is no such part, no
  conversion is performed and the result is zero. Otherwise the result is the decimal
  number rounded to binary64.
\<close>

definition decimal_digits :: "string \<Rightarrow> string" where
  "decimal_digits str = takeWhile (\<lambda>c. isdigit (of_char c)) str"

definition digits_value :: "string \<Rightarrow> nat" where
  "digits_value ds = foldl (\<lambda>a c. 10 * a + (of_char c - 48)) 0 ds"

definition strtod :: "string \<Rightarrow> double" where
  "strtod str =
     (let ip = decimal_digits str;
          fp = (case drop (length ip) str of
                  [] \<Rightarrow> []
                | c # cs \<Rightarrow> if c = CHR ''.'' then decimal_digits cs else [])
      in if ip = [] \<and> fp = [] then Finite 0
         else to_binary64 (digits_value (ip @ fp)) (10 ^ length fp))"

text \<open>The bit length of a numeral is read off its binary digits.\<close>

fun num_bits :: "num \<Rightarrow> nat" where
  "num_bits num.One = 1"
| "num_bits (num.Bit0 k) = num_bits k + 1"
| "num_bits (num.Bit1 k) = num_bits k + 1"

lemma bit_length_1: "bit_length 1 = 1" "bit_length (Suc 0) = 1"
  by (simp_all add: bit_length.simps [of 1] bit_length.simps [of "Suc 0"] bit_length.simps [of 0])

lemma bit_length_numeral: "bit_length (numeral k) = num_bits k"
proof (induction k)
  case One
  show ?case by (simp add: bit_length_1)
next
  case (Bit0 k)
  have "numeral (num.Bit0 k) div 2 = (numeral k :: nat)" by simp
  with Bit0 show ?case by (subst bit_length.simps) simp
next
  case (Bit1 k)
  have "numeral (num.Bit1 k) div 2 = (numeral k :: nat)" by simp
  with Bit1 show ?case by (subst bit_length.simps) simp
qed

text \<open>\<open>bit_length\<close> gives the binary exponent, and \<open>round_half_even\<close> is within a half of
  the quotient.\<close>

lemma bit_length_bounds:
  "0 < n \<Longrightarrow> 2 ^ (bit_length n - 1) \<le> n \<and> n < 2 ^ bit_length n"
proof (induction n rule: bit_length.induct)
  case (1 n)
  show ?case
  proof (cases "n div 2 = 0")
    case True
    with "1.prems" have "n = 1" by presburger
    then show ?thesis by (simp add: bit_length_1)
  next
    case False
    then have pos: "0 < n div 2" by simp
    from "1.prems" have n0: "n \<noteq> 0" by simp
    from "1.IH" [OF n0 pos]
    have lo: "2 ^ (bit_length (n div 2) - 1) \<le> n div 2"
      and hi: "n div 2 < 2 ^ bit_length (n div 2)" by simp_all
    have bl: "bit_length n = bit_length (n div 2) + 1"
      using n0 by (subst bit_length.simps) simp
    have blpos: "0 < bit_length (n div 2)"
      using False by (subst bit_length.simps) simp
    then obtain b where b: "bit_length (n div 2) = Suc b" by (cases "bit_length (n div 2)") auto
    from lo b have "2 * 2 ^ b \<le> 2 * (n div 2)" by simp
    also have "\<dots> \<le> n" by simp
    finally have l: "2 ^ (bit_length n - 1) \<le> n" by (simp add: bl b)
    from hi have "n div 2 + 1 \<le> 2 ^ bit_length (n div 2)" by simp
    then have "2 * (n div 2) + 2 \<le> 2 * 2 ^ bit_length (n div 2)" by simp
    moreover have "n < 2 * (n div 2) + 2" by presburger
    ultimately have "n < 2 ^ bit_length n" by (simp add: bl)
    with l show ?thesis by simp
  qed
qed

lemma round_half_even_nearest:
  assumes "0 < den"
  shows "2 * \<bar>int num - int (round_half_even num den) * int den\<bar> \<le> int den"
proof -
  let ?k = "num div den" and ?r = "num mod den"
  have n: "int num = int ?k * int den + int ?r"
    by (metis div_mult_mod_eq of_nat_add of_nat_mult)
  have r: "int ?r < int den" using assms by simp
  show ?thesis
    using n r by (auto simp: round_half_even_def Let_def algebra_simps)
qed

text \<open>
  What the rounding does. With \<open>L\<close> as in \<open>to_binary64\<close> the fraction lies in
  \<open>[2 ^ L, 2 ^ (L + 1))\<close>, where the binary64 numbers are the multiples of \<open>2 ^ e\<close>. A finite
  result is such a multiple \<open>m * 2 ^ e\<close> with at most 53 bits in \<open>m\<close>, below \<open>2 ^ 1024\<close>, and no
  further than half of \<open>2 ^ e\<close> from the fraction; \<open>HUGE_VAL\<close> is returned only for a
  fraction of at least \<open>2 ^ 1024 - 2 ^ 970\<close>, halfway between the largest binary64 number
  and \<open>2 ^ 1024\<close>.
\<close>

lemma bit_length_powi:
  assumes "0 < n"
  shows "(2::rat) powi (int (bit_length n) - 1) \<le> of_nat n" and "of_nat n < (2::rat) powi int (bit_length n)"
proof -
  from bit_length_bounds [OF assms]
  have lo: "2 ^ (bit_length n - 1) \<le> n" and hi: "n < 2 ^ bit_length n" by simp_all
  have pos: "0 < bit_length n" using assms by (subst bit_length.simps) simp
  then have e: "int (bit_length n) - 1 = int (bit_length n - 1)" by simp
  have "(2::rat) powi (int (bit_length n - 1)) = 2 ^ (bit_length n - 1)" by (rule power_int_of_nat)
  also have "\<dots> = of_nat (2 ^ (bit_length n - 1))" by simp
  also have "\<dots> \<le> of_nat n" using lo by (simp only: of_nat_le_iff)
  finally show "(2::rat) powi (int (bit_length n) - 1) \<le> of_nat n" by (simp only: e)
  have "(of_nat n :: rat) < of_nat (2 ^ bit_length n)" using hi by (simp only: of_nat_less_iff)
  also have "\<dots> = 2 ^ bit_length n" by simp
  also have "\<dots> = (2::rat) powi int (bit_length n)" by (rule power_int_of_nat [symmetric])
  finally show "of_nat n < (2::rat) powi int (bit_length n)" .
qed

lemma binade_test:
  assumes "0 < q"
  shows "(if 0 \<le> d then q * 2 ^ nat d \<le> p else q \<le> p * 2 ^ nat (- d)) \<longleftrightarrow>
         (2::rat) powi d \<le> of_nat p / of_nat q"
proof -
  have q: "(0::rat) < of_nat q" using assms by simp
  show ?thesis
  proof (cases "0 \<le> d")
    case True
    have "(q * 2 ^ nat d \<le> p) = ((of_nat (q * 2 ^ nat d) :: rat) \<le> of_nat p)"
      by (simp only: of_nat_le_iff)
    also have "(of_nat (q * 2 ^ nat d) :: rat) = 2 ^ nat d * of_nat q" by simp
    also have "(2 ^ nat d * of_nat q \<le> (of_nat p :: rat)) = ((2::rat) ^ nat d \<le> of_nat p / of_nat q)"
      using q by (simp only: pos_le_divide_eq)
    also have "(2::rat) ^ nat d = 2 powi d" using True by (simp only: power_int_def if_True)
    finally show ?thesis using True by simp
  next
    case False
    have t: "(0::rat) < 2 ^ nat (- d)" by simp
    have "(q \<le> p * 2 ^ nat (- d)) = ((of_nat q :: rat) \<le> of_nat (p * 2 ^ nat (- d)))"
      by (simp only: of_nat_le_iff)
    also have "(of_nat (p * 2 ^ nat (- d)) :: rat) = of_nat p * 2 ^ nat (- d)" by simp
    also have "((of_nat q :: rat) \<le> of_nat p * 2 ^ nat (- d)) =
               (of_nat q / 2 ^ nat (- d) \<le> (of_nat p :: rat))"
      using t by (simp only: pos_divide_le_eq)
    also have "(of_nat q / 2 ^ nat (- d) \<le> (of_nat p :: rat)) =
               (inverse (2 ^ nat (- d)) * of_nat q \<le> (of_nat p :: rat))"
      by (simp only: divide_inverse mult.commute)
    also have "\<dots> = (inverse ((2::rat) ^ nat (- d)) \<le> of_nat p / of_nat q)"
      using q by (simp only: pos_le_divide_eq)
    also have "inverse ((2::rat) ^ nat (- d)) = 2 powi d"
      using False by (simp only: power_int_def if_False power_inverse)
    finally show ?thesis using False by simp
  qed
qed

lemma round_half_even_rat:
  assumes "0 < den"
  shows "\<bar>of_nat num / of_nat den - of_nat (round_half_even num den)\<bar> \<le> (1 / 2 :: rat)"
proof -
  let ?m = "round_half_even num den"
  have d: "(0::rat) < of_nat den" using assms by simp
  have "(of_int (2 * \<bar>int num - int ?m * int den\<bar>) :: rat) \<le> of_int (int den)"
    using round_half_even_nearest [OF assms, of num] by (simp only: of_int_le_iff)
  then have "2 * \<bar>(of_nat num :: rat) - of_nat ?m * of_nat den\<bar> \<le> of_nat den"
    by simp
  moreover have "(of_nat num :: rat) - of_nat ?m * of_nat den =
      (of_nat num / of_nat den - of_nat ?m) * of_nat den"
    using d by (simp add: field_simps)
  ultimately have "2 * (\<bar>of_nat num / of_nat den - of_nat ?m\<bar> * (of_nat den :: rat)) \<le> of_nat den"
    using d by (simp add: abs_mult)
  then have "\<bar>of_nat num / of_nat den - of_nat ?m\<bar> * (of_nat den :: rat) \<le> (1 / 2) * of_nat den"
    by simp
  then show ?thesis using d by (simp only: mult_le_cancel_right_pos)
qed

lemma binade:
  assumes "0 < p" and "0 < q"
    and d_def: "d = int (bit_length p) - int (bit_length q)"
    and L_def: "L = (if (if 0 \<le> d then q * 2 ^ nat d \<le> p else q \<le> p * 2 ^ nat (- d))
                  then d else d - 1)"
  shows "(2::rat) powi L \<le> of_nat p / of_nat q" and "of_nat p / of_nat q < (2::rat) powi (L + 1)"
proof -
  let ?x = "of_nat p / of_nat q :: rat"
  have qpos: "(0::rat) < of_nat q" using assms by simp
  note bp = bit_length_powi [OF assms(1)] and bq = bit_length_powi [OF assms(2)]
  have c: "(if 0 \<le> d then q * 2 ^ nat d \<le> p else q \<le> p * 2 ^ nat (- d)) \<longleftrightarrow> 2 powi d \<le> ?x"
    by (rule binade_test [OF assms(2)])
  have up: "?x < 2 powi (d + 1)"
  proof -
    have "of_nat p < (2::rat) powi (d + 1) * 2 powi (int (bit_length q) - 1)"
      using bp(2) by (simp add: d_def power_int_add [symmetric])
    also have "\<dots> \<le> 2 powi (d + 1) * of_nat q"
      using bq(1) by (simp add: mult_left_mono)
    finally show ?thesis using qpos by (simp add: pos_divide_less_eq)
  qed
  have lo: "2 powi (d - 1) \<le> ?x"
  proof -
    have "(2::rat) powi (d - 1) * of_nat q \<le> 2 powi (d - 1) * 2 powi int (bit_length q)"
      using bq(2) by (simp add: mult_left_mono)
    also have "\<dots> = 2 powi ((d - 1) + int (bit_length q))"
      by (rule power_int_add [symmetric]) simp
    also have "\<dots> = 2 powi (int (bit_length p) - 1)"
    proof -
      have "(d - 1) + int (bit_length q) = int (bit_length p) - 1"
        unfolding d_def by arith
      then show ?thesis by (rule arg_cong)
    qed
    also have "\<dots> \<le> of_nat p" by (rule bp(1))
    finally show ?thesis using qpos by (simp add: pos_le_divide_eq)
  qed
  show "(2::rat) powi L \<le> ?x"
    using c lo by (simp add: L_def)
  show "?x < (2::rat) powi (L + 1)"
  proof (cases "2 powi d \<le> ?x")
    case True
    with c up show ?thesis by (simp add: L_def)
  next
    case False
    with c show ?thesis by (simp add: L_def)
  qed
qed

lemma powi_nonneg: "0 \<le> e \<Longrightarrow> (2::rat) powi e = 2 ^ nat e"
  by (simp only: power_int_def if_True)

lemma powi_minus: "0 \<le> e \<Longrightarrow> (2::rat) powi (- e) = inverse (2 ^ nat e)"
  by (simp only: power_int_minus powi_nonneg)

lemma powi_neg: "\<not> 0 \<le> e \<Longrightarrow> (2::rat) powi e = inverse (2 ^ nat (- e))"
  using powi_minus [of "- e"] by simp

lemma to_binary64_nearest:
  assumes "0 < p" and "0 < q" and "to_binary64 p q = Finite r"
  shows "\<exists>m e. r = of_nat m * 2 powi e \<and> - 1074 \<le> e \<and> e \<le> 971 \<and> m \<le> 2 ^ 53 \<and>
               (2 ^ 52 \<le> m \<or> e = - 1074) \<and> r < 2 ^ 1024 \<and>
               \<bar>of_nat p / of_nat q - r\<bar> \<le> 2 powi e / 2"
proof -
  define x :: rat where "x = of_nat p / of_nat q"
  define d where "d = int (bit_length p) - int (bit_length q)"
  define L where "L = (if (if 0 \<le> d then q * 2 ^ nat d \<le> p else q \<le> p * 2 ^ nat (- d))
                  then d else d - 1)"
  define e where "e = max (L - 52) (- 1074)"
  define m where "m = (if 0 \<le> e then round_half_even p (q * 2 ^ nat e)
                        else round_half_even (p * 2 ^ nat (- e)) q)"
  define y :: rat where "y = x * 2 powi (- e)"
  have eq: "to_binary64 p q =
      (if 971 < e then HUGE_VAL
       else if e = 971 \<and> m = 2 ^ 53 then HUGE_VAL
       else if 0 \<le> e then Finite (of_nat (m * 2 ^ nat e))
       else Finite (of_nat m / 2 ^ nat (- e)))"
  proof -
    have pn: "(p = 0) = False" using assms(1) by simp
    show ?thesis
      unfolding to_binary64_def Let_def m_def e_def L_def d_def pn if_False by (rule refl)
  qed
  from eq assms(3) have e971: "e \<le> 971" and nov: "e = 971 \<longrightarrow> m \<noteq> 2 ^ 53"
    by (auto split: if_splits)
  have r: "r = of_nat m * 2 powi e"
  proof (cases "0 \<le> e")
    case True
    with eq assms(3) e971 nov have "r = of_nat (m * 2 ^ nat e)" by (auto split: if_splits)
    with True show ?thesis by (simp add: powi_nonneg)
  next
    case False
    with eq assms(3) e971 nov have "r = of_nat m / 2 ^ nat (- e)" by (auto split: if_splits)
    then show ?thesis by (simp only: divide_inverse powi_neg [OF False])
  qed
  have qpos: "(0::rat) < of_nat q" using assms(2) by simp
  have lo: "2 powi L \<le> x"
    unfolding x_def by (rule binade(1) [OF assms(1,2) d_def L_def])
  have hi: "x < 2 powi (L + 1)"
    unfolding x_def by (rule binade(2) [OF assms(1,2) d_def L_def])
  have pe: "(0::rat) < 2 powi e" and pne: "(0::rat) < 2 powi (- e)" by simp_all
  have ym: "\<bar>y - of_nat m\<bar> \<le> 1 / 2"
  proof (cases "0 \<le> e")
    case True
    have den: "0 < q * 2 ^ nat e" using assms(2) by simp
    have "(of_nat p :: rat) / of_nat (q * 2 ^ nat e) = x * inverse (2 ^ nat e)"
      by (simp add: x_def divide_inverse)
    also have "inverse ((2::rat) ^ nat e) = 2 powi (- e)"
      by (rule powi_minus [OF True, symmetric])
    finally have "(of_nat p :: rat) / of_nat (q * 2 ^ nat e) = y" by (simp only: y_def)
    with round_half_even_rat [OF den, of p] True show ?thesis by (simp add: m_def)
  next
    case False
    have "(of_nat (p * 2 ^ nat (- e)) :: rat) / of_nat q = x * 2 ^ nat (- e)"
      by (simp add: x_def)
    also have "(2::rat) ^ nat (- e) = 2 powi (- e)"
      using False by (intro powi_nonneg [symmetric]) simp
    finally have "(of_nat (p * 2 ^ nat (- e)) :: rat) / of_nat q = y" by (simp only: y_def)
    with round_half_even_rat [OF assms(2), of "p * 2 ^ nat (- e)"] False show ?thesis
      by (simp add: m_def)
  qed
  have xy: "x = y * 2 powi e"
  proof -
    have "(2::rat) powi (- e) * 2 powi e = 2 powi (- e + e)"
      by (rule power_int_add [symmetric]) simp
    then show ?thesis by (simp add: y_def)
  qed
  have near: "\<bar>x - r\<bar> \<le> 2 powi e / 2"
  proof -
    have "x - r = (y - of_nat m) * 2 powi e" by (simp add: xy r algebra_simps)
    then have "\<bar>x - r\<bar> = \<bar>y - of_nat m\<bar> * 2 powi e" using pe by (simp add: abs_mult)
    also have "\<dots> \<le> (1 / 2) * 2 powi e" using ym pe by (simp only: mult_le_cancel_right_pos)
    finally show ?thesis by simp
  qed
  have yhi: "y < 2 ^ 53"
  proof -
    have "y < 2 powi (L + 1) * 2 powi (- e)"
      using hi pne by (simp only: y_def mult_less_cancel_right_pos)
    also have "\<dots> = 2 powi (L + 1 - e)"
      using power_int_add [of "2::rat" "L + 1" "- e"] by simp
    also have "\<dots> \<le> 2 powi 53"
      by (rule power_int_increasing) (simp_all add: e_def)
    finally show ?thesis by simp
  qed
  have m53: "m \<le> 2 ^ 53"
  proof -
    from ym yhi have "(of_nat m :: rat) < 2 ^ 53 + 1" by linarith
    then have "(of_nat m :: rat) < of_nat (2 ^ 53 + 1)" by simp
    then have "m < 2 ^ 53 + 1" by (simp only: of_nat_less_iff)
    then show ?thesis by simp
  qed
  have m52: "2 ^ 52 \<le> m \<or> e = - 1074"
  proof (cases "e = - 1074")
    case True
    then show ?thesis by simp
  next
    case False
    then have eL: "e = L - 52" by (simp add: e_def max_def split: if_splits)
    have "(2::rat) powi 52 = 2 powi (L + - e)" by (simp add: eL)
    also have "\<dots> = 2 powi L * 2 powi (- e)"
      by (rule power_int_add) simp
    also have "\<dots> \<le> y" using lo pne by (simp only: y_def mult_le_cancel_right_pos)
    finally have "(2::rat) ^ 52 \<le> y" by simp
    with ym have "(2::rat) ^ 52 - 1 < of_nat m" by linarith
    then have "(of_nat (2 ^ 52 - 1) :: rat) < of_nat m" by simp
    then have "2 ^ 52 - 1 < m" by (simp only: of_nat_less_iff)
    then show ?thesis by simp
  qed
  have rlt: "r < 2 ^ 1024"
  proof (cases "m = 2 ^ 53")
    case True
    with nov e971 have "e + 53 \<le> 1023" by simp
    have "r = 2 powi 53 * 2 powi e" using True by (simp add: r)
    also have "\<dots> = 2 powi (53 + e)" by (rule power_int_add [symmetric]) simp
    also have "\<dots> \<le> 2 powi 1023" using \<open>e + 53 \<le> 1023\<close>
      by (intro power_int_increasing) simp_all
    also have "\<dots> < (2::rat) ^ 1024" by simp
    finally show ?thesis .
  next
    case False
    with m53 have "m < 2 ^ 53" by simp
    then have "(of_nat m :: rat) < of_nat (2 ^ 53)" by (simp only: of_nat_less_iff)
    then have "(of_nat m :: rat) < 2 powi 53" by simp
    then have "r < 2 powi 53 * 2 powi e" using pe by (simp only: r mult_less_cancel_right_pos)
    also have "\<dots> = 2 powi (53 + e)" by (rule power_int_add [symmetric]) simp
    also have "\<dots> \<le> 2 powi 1024" using e971 by (intro power_int_increasing) simp_all
    finally show ?thesis by simp
  qed
  have "- 1074 \<le> e" by (simp add: e_def)
  with r e971 m53 m52 rlt near show ?thesis
    unfolding x_def by blast
qed


lemma to_binary64_out_of_range:
  assumes "0 < p" and "0 < q" and "to_binary64 p q = HUGE_VAL"
  shows "(2::rat) ^ 1024 - 2 ^ 970 \<le> of_nat p / of_nat q"
proof -
  define x :: rat where "x = of_nat p / of_nat q"
  define d where "d = int (bit_length p) - int (bit_length q)"
  define L where "L = (if (if 0 \<le> d then q * 2 ^ nat d \<le> p else q \<le> p * 2 ^ nat (- d))
                  then d else d - 1)"
  define e where "e = max (L - 52) (- 1074)"
  define m where "m = (if 0 \<le> e then round_half_even p (q * 2 ^ nat e)
                        else round_half_even (p * 2 ^ nat (- e)) q)"
  have eq: "to_binary64 p q =
      (if 971 < e then HUGE_VAL
       else if e = 971 \<and> m = 2 ^ 53 then HUGE_VAL
       else if 0 \<le> e then Finite (of_nat (m * 2 ^ nat e))
       else Finite (of_nat m / 2 ^ nat (- e)))"
  proof -
    have pn: "(p = 0) = False" using assms(1) by simp
    show ?thesis
      unfolding to_binary64_def Let_def m_def e_def L_def d_def pn if_False by (rule refl)
  qed
  have lo: "2 powi L \<le> x"
    unfolding x_def by (rule binade(1) [OF assms(1,2) d_def L_def])
  from eq assms(3) have "971 < e \<or> (e = 971 \<and> m = 2 ^ 53)"
    by (auto split: if_splits)
  then have "(2::rat) ^ 1024 - 2 ^ 970 \<le> x"
  proof
    assume "971 < e"
    then have "1024 \<le> L" by (simp add: e_def)
    then have "(2::rat) powi 1024 \<le> 2 powi L" by (intro power_int_increasing) simp_all
    from this lo have "(2::rat) powi 1024 \<le> x" by (rule order_trans)
    then have "(2::rat) ^ 1024 \<le> x" by simp
    moreover have "(0::rat) \<le> 2 ^ 970" by simp
    ultimately show ?thesis by linarith
  next
    assume a: "e = 971 \<and> m = 2 ^ 53"
    then have e0: "0 \<le> e" by simp
    define t :: rat where "t = 2 ^ nat e"
    have tpos: "0 < t" by (simp add: t_def)
    have den: "0 < q * 2 ^ nat e" using assms(2) by simp
    have m: "m = round_half_even p (q * 2 ^ nat e)" using e0 by (simp add: m_def)
    have "(of_nat p :: rat) / of_nat (q * 2 ^ nat e) = x / t"
      by (simp add: x_def t_def)
    with round_half_even_rat [OF den, of p]
    have "\<bar>x / t - of_nat m\<bar> \<le> (1 / 2 :: rat)" by (simp only: m)
    then have "of_nat m - 1 / 2 \<le> x / t" by linarith
    then have "(of_nat m - 1 / 2) * t \<le> x" using tpos by (simp only: pos_le_divide_eq)
    moreover have "(of_nat m - 1 / 2) * t = (2::rat) ^ 1024 - 2 ^ 970"
    proof -
      have "t = 2 ^ 971" using a by (simp add: t_def)
      moreover have "(of_nat m :: rat) = 2 ^ 53" using a by simp
      ultimately show ?thesis by simp
    qed
    ultimately show ?thesis by simp
  qed
  then show ?thesis by (simp only: x_def)
qed


section \<open>Abstract syntax\<close>

datatype ExprAST =
    NumberExprAST double
  | VariableExprAST string
  | BinaryExprAST char ExprAST ExprAST
  | CallExprAST string "ExprAST list"

datatype PrototypeAST = PrototypeAST string "string list"

datatype FunctionAST = FunctionAST PrototypeAST ExprAST

text \<open>What the driver hands to code generation: a definition, an extern declaration or
  a top-level expression wrapped in an anonymous function.\<close>

datatype entity =
    Definition FunctionAST
  | Extern PrototypeAST
  | TopLevelExpr FunctionAST


section \<open>Program state\<close>

text \<open>
  The file-scope variables of the program, the unread part of standard input and what has
  been written to standard error. \<open>LastChar\<close> is the function-local static of \<open>getTok\<close>.
  The key type of \<open>BinopPrecedence\<close> is C's \<open>char\<close>: an \<open>int\<close> used as a key is
  narrowed to its low eight bits, which is what \<open>char_of\<close> does. The LLVM lowering of the
  second file is outside the model: \<open>lowered\<close> only records, in order, the syntax trees on
  which \<open>codegen()\<close> is called.
\<close>

record state =
  stdin :: "char list"
  LastChar :: int
  IdentifierStr :: string
  NumVal :: double
  CurTok :: int
  BinopPrecedence :: "char \<rightharpoonup> int"
  stderr :: "string list"
  lowered :: "entity list"


section \<open>Lexer\<close>

text \<open>\<open>while (isspace(LastChar)) LastChar = getchar();\<close> on the pending character and the
  unread input.\<close>

fun skip_whitespace :: "int \<Rightarrow> char list \<Rightarrow> int \<times> char list" where
  "skip_whitespace c [] = (if isspace c then EOF else c, [])"
| "skip_whitespace c (x # xs) =
     (if isspace c then skip_whitespace (of_char x) xs else (c, x # xs))"

text \<open>\<open>while (isalnum((LastChar = getchar()))) IdentifierStr += LastChar;\<close>\<close>

fun read_identifier :: "string \<Rightarrow> char list \<Rightarrow> string \<times> int \<times> char list" where
  "read_identifier ident [] = (ident, EOF, [])"
| "read_identifier ident (x # xs) =
     (if isalnum (of_char x) then read_identifier (ident @ [x]) xs
      else (ident, of_char x, xs))"

text \<open>\<open>do { NumStr += LastChar; LastChar = getchar(); }
  while (isdigit(LastChar) || LastChar == '.');\<close>\<close>

fun read_number :: "string \<Rightarrow> int \<Rightarrow> char list \<Rightarrow> string \<times> int \<times> char list" where
  "read_number NumStr c [] = (NumStr @ [char_of c], EOF, [])"
| "read_number NumStr c (x # xs) =
     (if isdigit (of_char x) \<or> of_char x = (46::int)
      then read_number (NumStr @ [char_of c]) (of_char x) xs
      else (NumStr @ [char_of c], of_char x, xs))"

text \<open>\<open>do LastChar = getchar();
  while (LastChar != EOF && LastChar != '\n' && LastChar != '\r');\<close>\<close>

fun skip_comment :: "char list \<Rightarrow> int \<times> char list" where
  "skip_comment [] = (EOF, [])"
| "skip_comment (x # xs) =
     (if of_char x \<noteq> (10::int) \<and> of_char x \<noteq> (13::int) then skip_comment xs
      else (of_char x, xs))"

lemma skip_whitespace_length: "length (snd (skip_whitespace c xs)) \<le> length xs"
  by (induction xs arbitrary: c) (auto intro: le_SucI)

lemma skip_comment_length:
  "fst (skip_comment xs) \<noteq> EOF \<Longrightarrow> length (snd (skip_comment xs)) < length xs"
  by (induction xs) (auto intro: less_SucI)

function getTok :: "state \<Rightarrow> int \<times> state" where
  "getTok s =
     (let (c, inp) = skip_whitespace (LastChar s) (stdin s) in
      if isalpha c then
        (let (ident, c', inp') = read_identifier [char_of c] inp;
             s' = s\<lparr>stdin := inp', LastChar := c', IdentifierStr := ident\<rparr>
         in if ident = ''def'' then (tok_def, s')
            else if ident = ''extern'' then (tok_extern, s')
            else (tok_identifier, s'))
      else if isdigit c \<or> c = 46 then
        (let (NumStr, c', inp') = read_number [] c inp
         in (tok_number, s\<lparr>stdin := inp', LastChar := c', NumVal := strtod NumStr\<rparr>))
      else if c = 35 then
        (let (c', inp') = skip_comment inp
         in if c' \<noteq> EOF then getTok (s\<lparr>stdin := inp', LastChar := c'\<rparr>)
            else (tok_eof, s\<lparr>stdin := inp', LastChar := c'\<rparr>))
      else if c = EOF then (tok_eof, s\<lparr>stdin := inp, LastChar := c\<rparr>)
      else (case inp of
              [] \<Rightarrow> (c, s\<lparr>stdin := [], LastChar := EOF\<rparr>)
            | x # xs \<Rightarrow> (c, s\<lparr>stdin := xs, LastChar := of_char x\<rparr>)))"
  by pat_completeness auto

termination
proof (relation "measure (\<lambda>s. length (stdin s))")
  show "wf (measure (\<lambda>s. length (stdin s)))" by simp
next
  fix s :: state and x c inp x2 c' inp'
  assume ws: "x = skip_whitespace (LastChar s) (stdin s)" "(c, inp) = x"
    and cm: "x2 = skip_comment inp" "(c', inp') = x2" "c' \<noteq> EOF"
  have "length inp \<le> length (stdin s)"
    using ws skip_whitespace_length [of "LastChar s" "stdin s"] by (metis snd_conv)
  moreover have "length inp' < length inp"
    using cm skip_comment_length [of inp] by (metis fst_conv snd_conv)
  ultimately show "(s\<lparr>stdin := inp', LastChar := c'\<rparr>, s) \<in> measure (\<lambda>s. length (stdin s))"
    by simp
qed

declare getTok.simps [simp del]

definition getNextToken :: "state \<Rightarrow> int \<times> state" where
  "getNextToken s = (let (t, s') = getTok s in (t, s'\<lparr>CurTok := t\<rparr>))"


text \<open>What the lexer has still to read: the unread input and the pending character. Every
  token that is an identifier uses some of it up, which bounds the parameter loop of
  \<open>ParsePrototype\<close>.\<close>

definition pending :: "state \<Rightarrow> nat" where
  "pending s = length (stdin s) + (if LastChar s = EOF then 0 else 1)"

lemma of_char_not_EOF: "(of_char x :: int) \<noteq> EOF"
proof -
  have "(of_char x :: int) = int (of_char x)" by (simp add: of_nat_of_char)
  then have "(0::int) \<le> of_char x" by (metis of_nat_0_le_iff)
  then show ?thesis by (simp add: EOF_def)
qed

lemma skip_whitespace_pending:
  "skip_whitespace c xs = (c', xs') \<Longrightarrow>
   length xs' + (if c' = EOF then 0 else 1) \<le> length xs + (if c = EOF then 0 else 1)"
proof (induction xs arbitrary: c)
  case Nil
  then show ?case by (auto split: if_splits)
next
  case (Cons x xs)
  show ?case
  proof (cases "isspace c")
    case True
    then have "c \<noteq> EOF" by (auto simp: isspace_def EOF_def)
    moreover from True Cons.prems have "skip_whitespace (of_char x) xs = (c', xs')" by simp
    from Cons.IH [OF this] have "length xs' + (if c' = EOF then 0 else 1) \<le> length xs + 1"
      by (simp add: of_char_not_EOF)
    ultimately show ?thesis by simp
  next
    case False
    with Cons.prems show ?thesis by auto
  qed
qed

lemma read_identifier_pending:
  "read_identifier acc xs = (ident, c', xs') \<Longrightarrow>
   length xs' + (if c' = EOF then 0 else 1) \<le> length xs"
proof (induction xs arbitrary: acc)
  case Nil
  then show ?case by simp
next
  case (Cons x xs)
  show ?case
  proof (cases "isalnum (of_char x)")
    case True
    with Cons.prems have "read_identifier (acc @ [x]) xs = (ident, c', xs')" by simp
    from Cons.IH [OF this] show ?thesis by simp
  next
    case False
    with Cons.prems show ?thesis by (auto simp: of_char_not_EOF)
  qed
qed

lemma skip_comment_pending:
  "skip_comment xs = (c', xs') \<Longrightarrow> length xs' + (if c' = EOF then 0 else 1) \<le> length xs"
proof (induction xs)
  case Nil
  then show ?case by simp
next
  case (Cons x xs)
  show ?case
  proof (cases "of_char x \<noteq> (10::int) \<and> of_char x \<noteq> (13::int)")
    case True
    with Cons.prems have "skip_comment xs = (c', xs')" by simp
    from Cons.IH [OF this] show ?thesis by simp
  next
    case False
    with Cons.prems show ?thesis by (auto simp: of_char_not_EOF)
  qed
qed

lemma read_number_pending:
  "read_number acc c xs = (NumStr, c', xs') \<Longrightarrow>
   length xs' + (if c' = EOF then 0 else 1) \<le> length xs"
proof (induction xs arbitrary: acc c)
  case Nil
  then show ?case by simp
next
  case (Cons x xs)
  show ?case
  proof (cases "isdigit (of_char x) \<or> of_char x = (46::int)")
    case True
    with Cons.prems have "read_number (acc @ [char_of c]) (of_char x) xs = (NumStr, c', xs')"
      by simp
    from Cons.IH [OF this] show ?thesis by simp
  next
    case False
    with Cons.prems show ?thesis by (auto simp: of_char_not_EOF)
  qed
qed

lemma getTok_pending:
  "pending (snd (getTok s)) \<le> pending s \<and>
   (fst (getTok s) = tok_identifier \<longrightarrow> pending (snd (getTok s)) < pending s)"
proof (induction s rule: getTok.induct)
  case (1 s)
  obtain c inp where ws: "skip_whitespace (LastChar s) (stdin s) = (c, inp)"
    by fastforce
  have le0: "length inp + (if c = EOF then 0 else 1) \<le> pending s"
    using skip_whitespace_pending [OF ws] by (simp add: pending_def)
  consider (ident) "isalpha c"
    | (num) "\<not> isalpha c" "isdigit c \<or> c = 46"
    | (comment) "\<not> isalpha c" "\<not> (isdigit c \<or> c = 46)" "c = 35"
    | (eof) "\<not> isalpha c" "\<not> (isdigit c \<or> c = 46)" "c \<noteq> 35" "c = EOF"
    | (other) "\<not> isalpha c" "\<not> (isdigit c \<or> c = 46)" "c \<noteq> 35" "c \<noteq> EOF"
    by blast
  then show ?case
  proof cases
    case ident
    obtain ident c' inp' where ri: "read_identifier [char_of c] inp = (ident, c', inp')"
      by (metis prod_cases3)
    from ident have "c \<noteq> EOF" by (auto simp: isalpha_def EOF_def)
    with le0 read_identifier_pending [OF ri]
    have "length inp' + (if c' = EOF then 0 else 1) < pending s" by simp
    moreover have "snd (getTok s) = s\<lparr>stdin := inp', LastChar := c', IdentifierStr := ident\<rparr>"
      using ws ri ident by (subst getTok.simps) (simp add: Let_def)
    ultimately show ?thesis by (simp add: pending_def)
  next
    case num
    obtain NumStr c' inp' where rn: "read_number [] c inp = (NumStr, c', inp')"
      by (metis prod_cases3)
    from num have "c \<noteq> EOF" by (auto simp: isdigit_def EOF_def)
    with le0 read_number_pending [OF rn]
    have "length inp' + (if c' = EOF then 0 else 1) < pending s" by simp
    moreover have "snd (getTok s) = s\<lparr>stdin := inp', LastChar := c', NumVal := strtod NumStr\<rparr>"
      using ws rn num by (subst getTok.simps) (auto simp add: Let_def)
    ultimately show ?thesis by (simp add: pending_def)
  next
    case comment
    obtain c' inp' where sc: "skip_comment inp = (c', inp')"
      by fastforce
    from comment have "c \<noteq> EOF" by (simp add: EOF_def)
    with le0 skip_comment_pending [OF sc]
    have lt: "length inp' + (if c' = EOF then 0 else 1) < pending s" by simp
    show ?thesis
    proof (cases "c' = EOF")
      case True
      have "getTok s = (tok_eof, s\<lparr>stdin := inp', LastChar := c'\<rparr>)"
        using ws sc comment True by (subst getTok.simps) simp
      then show ?thesis
        using lt by (simp add: pending_def tok_defs)
    next
      case False
      let ?s' = "s\<lparr>stdin := inp', LastChar := c'\<rparr>"
      have eq: "getTok s = getTok ?s'"
        using ws sc comment False by (subst getTok.simps) simp
      have "pending ?s' < pending s" using lt by (simp add: pending_def)
      moreover have "pending (snd (getTok ?s')) \<le> pending ?s'"
        using "1.IH" [OF ws [symmetric] refl comment(1) comment(2) comment(3) sc [symmetric] refl False]
        by simp
      ultimately show ?thesis by (simp add: eq)
    qed
  next
    case eof
    then have "getTok s = (tok_eof, s\<lparr>stdin := inp, LastChar := c\<rparr>)"
      using ws by (subst getTok.simps) simp
    then show ?thesis
      using le0 by (simp add: pending_def tok_defs)
  next
    case other
    have eq: "getTok s = (case inp of
              [] \<Rightarrow> (c, s\<lparr>stdin := [], LastChar := EOF\<rparr>)
            | x # xs \<Rightarrow> (c, s\<lparr>stdin := xs, LastChar := of_char x\<rparr>))"
      using ws other by (subst getTok.simps) simp
    from other le0 have "length inp < pending s" by simp
    moreover have "pending (snd (getTok s)) \<le> length inp"
      by (cases inp) (simp_all add: eq pending_def of_char_not_EOF)
    ultimately show ?thesis by simp
  qed
qed


section \<open>Parser\<close>

text \<open>
  The repository holds the parser twice: in \<open>main.cpp\<close> and in a second file that adds code
  generation (\<open>src/unnamed/part_001\<close>). The two copies agree line by line except in
  \<open>GetTokPrecedence\<close> and in the driver, so one definition per function is given, taking
  the file where they differ. The lexer is the same text in every file.
\<close>

datatype source_file = main_cpp | part_001

text \<open>\<open>LogError\<close> prints to standard error; its null return value is the \<open>None\<close> of the
  caller.\<close>

definition fprintf_stderr :: "string \<Rightarrow> state \<Rightarrow> state" where
  "fprintf_stderr str s = s\<lparr>stderr := stderr s @ [str]\<rparr>"

definition LogError :: "string \<Rightarrow> state \<Rightarrow> state" where
  "LogError Str s = fprintf_stderr (''Error: '' @ Str @ ''\<newline>'') s"

definition LogErrorP :: "string \<Rightarrow> state \<Rightarrow> state" where
  "LogErrorP Str s = LogError Str s"

definition ParseNumberExpr :: "state \<Rightarrow> ExprAST option \<times> state" where
  "ParseNumberExpr s =
     (let result = NumberExprAST (NumVal s);
          s1 = snd (getNextToken s)
      in (Some result, s1))"

text \<open>
  \<open>std::map::operator[]\<close> returns the stored value, and for a key that is absent it first
  inserts the key with the value 0. \<open>main.cpp\<close> tests \<open>isascii(CurTok)\<close>, the other file
  \<open>!isascii(CurTok)\<close>.
\<close>

definition GetTokPrecedence :: "source_file \<Rightarrow> state \<Rightarrow> int \<times> state" where
  "GetTokPrecedence f s =
     (if (case f of main_cpp \<Rightarrow> isascii (CurTok s) | part_001 \<Rightarrow> \<not> isascii (CurTok s))
      then (- 1, s)
      else
        (let k = char_of (CurTok s);
             (TokPrec, s1) =
               (case BinopPrecedence s k of
                  Some v \<Rightarrow> (v, s)
                | None \<Rightarrow> (0, s\<lparr>BinopPrecedence := (BinopPrecedence s)(k \<mapsto> 0)\<rparr>))
         in if TokPrec \<le> 0 then (- 1, s1) else (TokPrec, s1)))"

text \<open>
  The expression parser is recursive through the input it consumes. The first argument
  bounds the depth of calls and loop iterations; \<open>None\<close> means the bound was reached, and
  \<open>Some (r, s)\<close> is a return with result \<open>r\<close> (\<open>None\<close> for a null pointer) in state \<open>s\<close>.
  \<open>ParseArgs\<close> is the \<open>while (true)\<close> loop of \<open>ParseIdentifierExpr\<close>.
\<close>

fun ParsePrimary :: "source_file \<Rightarrow> nat \<Rightarrow> state \<Rightarrow> (ExprAST option \<times> state) option"
  and ParseParenExpr :: "source_file \<Rightarrow> nat \<Rightarrow> state \<Rightarrow> (ExprAST option \<times> state) option"
  and ParseIdentifierExpr :: "source_file \<Rightarrow> nat \<Rightarrow> state \<Rightarrow> (ExprAST option \<times> state) option"
  and ParseArgs ::
    "source_file \<Rightarrow> nat \<Rightarrow> ExprAST list \<Rightarrow> state \<Rightarrow> (ExprAST list option \<times> state) option"
  and ParseBinOpRHS ::
    "source_file \<Rightarrow> nat \<Rightarrow> int \<Rightarrow> ExprAST \<Rightarrow> state \<Rightarrow> (ExprAST option \<times> state) option"
  and ParseExpression :: "source_file \<Rightarrow> nat \<Rightarrow> state \<Rightarrow> (ExprAST option \<times> state) option"
where
  "ParsePrimary f 0 s = None"
| "ParsePrimary f (Suc n) s =
     (if CurTok s = tok_identifier then ParseIdentifierExpr f n s
      else if CurTok s = tok_number then Some (ParseNumberExpr s)
      else if CurTok s = 40 then ParseParenExpr f n s
      else Some (None, LogError ''unknown token, expecting expression'' s))"
| "ParseParenExpr f 0 s = None"
| "ParseParenExpr f (Suc n) s =
     (case ParseExpression f n (snd (getNextToken s)) of
        None \<Rightarrow> None
      | Some (None, s1) \<Rightarrow> Some (None, s1)
      | Some (Some V, s1) \<Rightarrow>
          if CurTok s1 \<noteq> 41 then Some (None, LogError (''expected ')'' @ [CHR 0x27]) s1)
          else Some (Some V, snd (getNextToken s1)))"
| "ParseIdentifierExpr f 0 s = None"
| "ParseIdentifierExpr f (Suc n) s =
     (let IdName = IdentifierStr s;
          s1 = snd (getNextToken s)
      in if CurTok s1 \<noteq> 40 then Some (Some (VariableExprAST IdName), s1)
         else
           (let s2 = snd (getNextToken s1)
            in if CurTok s2 \<noteq> 41 then
                 (case ParseArgs f n [] s2 of
                    None \<Rightarrow> None
                  | Some (None, s3) \<Rightarrow> Some (None, s3)
                  | Some (Some Args, s3) \<Rightarrow>
                      Some (Some (CallExprAST IdName Args), snd (getNextToken s3)))
               else Some (Some (CallExprAST IdName []), snd (getNextToken s2))))"
| "ParseArgs f 0 Args s = None"
| "ParseArgs f (Suc n) Args s =
     (case ParseExpression f n s of
        None \<Rightarrow> None
      | Some (None, s1) \<Rightarrow> Some (None, s1)
      | Some (Some arg, s1) \<Rightarrow>
          if CurTok s1 = 41 then Some (Some (Args @ [arg]), s1)
          else if CurTok s1 \<noteq> 44
          then Some (None, LogError ''Expected ')' or ',' in argument list'' s1)
          else ParseArgs f n (Args @ [arg]) (snd (getNextToken s1)))"
| "ParseBinOpRHS f 0 ExprPrec LHS s = None"
| "ParseBinOpRHS f (Suc n) ExprPrec LHS s =
     (let (TokPrec, s1) = GetTokPrecedence f s
      in if TokPrec < ExprPrec then Some (Some LHS, s1)
         else
           (let BinOp = CurTok s1;
                s2 = snd (getNextToken s1)
            in case ParsePrimary f n s2 of
                 None \<Rightarrow> None
               | Some (None, s3) \<Rightarrow> Some (None, s3)
               | Some (Some RHS, s3) \<Rightarrow>
                   (let (NextPrec, s4) = GetTokPrecedence f s3
                    in if TokPrec < NextPrec then
                         (case ParseBinOpRHS f n (TokPrec + 1) RHS s4 of
                            None \<Rightarrow> None
                          | Some (None, s5) \<Rightarrow> Some (None, s5)
                          | Some (Some RHS', s5) \<Rightarrow>
                              ParseBinOpRHS f n ExprPrec
                                (BinaryExprAST (char_of BinOp) LHS RHS') s5)
                       else ParseBinOpRHS f n ExprPrec
                              (BinaryExprAST (char_of BinOp) LHS RHS) s4)))"
| "ParseExpression f 0 s = None"
| "ParseExpression f (Suc n) s =
     (case ParsePrimary f n s of
        None \<Rightarrow> None
      | Some (None, s1) \<Rightarrow> Some (None, s1)
      | Some (Some LHS, s1) \<Rightarrow> ParseBinOpRHS f n 0 LHS s1)"

text \<open>\<open>while (getNextToken() == tok_identifier) ArgNames.push_back(IdentifierStr);\<close>\<close>

function read_ArgNames :: "string list \<Rightarrow> state \<Rightarrow> string list \<times> state" where
  "read_ArgNames ArgNames s =
     (let (t, s1) = getNextToken s
      in if t = tok_identifier then read_ArgNames (ArgNames @ [IdentifierStr s1]) s1
         else (ArgNames, s1))"
  by pat_completeness auto

termination
proof (relation "measure (\<lambda>(ArgNames, s). pending s)")
  show "wf (measure (\<lambda>(ArgNames, s). pending s))" by simp
next
  fix ArgNames :: "string list" and s x t s1
  assume "x = getNextToken s" "(t, s1) = x" "t = tok_identifier"
  then have "fst (getTok s) = tok_identifier" and "pending s1 = pending (snd (getTok s))"
    by (auto simp: getNextToken_def pending_def split: prod.splits)
  with getTok_pending [of s]
  show "((ArgNames @ [IdentifierStr s1], s1), (ArgNames, s)) \<in> measure (\<lambda>(ArgNames, s). pending s)"
    by simp
qed

declare read_ArgNames.simps [simp del]

definition ParsePrototype :: "state \<Rightarrow> PrototypeAST option \<times> state" where
  "ParsePrototype s =
     (if CurTok s \<noteq> tok_identifier
      then (None, LogErrorP ''Expected function name in prototype'' s)
      else
        (let FnName = IdentifierStr s;
             s1 = snd (getNextToken s)
         in if CurTok s1 \<noteq> 40 then (None, LogErrorP ''Expected '(' in prototype'' s1)
            else
              (let (ArgNames, s2) = read_ArgNames [] s1
               in if CurTok s2 \<noteq> 41 then (None, LogErrorP ''Expected ')' in prototype'' s2)
                  else (Some (PrototypeAST FnName ArgNames), snd (getNextToken s2)))))"

definition ParseDefinition ::
  "source_file \<Rightarrow> nat \<Rightarrow> state \<Rightarrow> (FunctionAST option \<times> state) option" where
  "ParseDefinition f n s =
     (case ParsePrototype (snd (getNextToken s)) of
        (None, s1) \<Rightarrow> Some (None, s1)
      | (Some Proto, s1) \<Rightarrow>
          (case ParseExpression f n s1 of
             None \<Rightarrow> None
           | Some (None, s2) \<Rightarrow> Some (None, s2)
           | Some (Some E, s2) \<Rightarrow> Some (Some (FunctionAST Proto E), s2)))"

definition ParseExtern :: "state \<Rightarrow> PrototypeAST option \<times> state" where
  "ParseExtern s = ParsePrototype (snd (getNextToken s))"

definition ParseTopLevelExpr ::
  "source_file \<Rightarrow> nat \<Rightarrow> state \<Rightarrow> (FunctionAST option \<times> state) option" where
  "ParseTopLevelExpr f n s =
     (case ParseExpression f n s of
        None \<Rightarrow> None
      | Some (None, s1) \<Rightarrow> Some (None, s1)
      | Some (Some E, s1) \<Rightarrow> Some (Some (FunctionAST (PrototypeAST [] []) E), s1))"


section \<open>Driver\<close>

text \<open>
  On success \<open>main.cpp\<close> prints a line and drops the tree; the second file calls
  \<open>codegen()\<close> on it. On failure both skip one token.
\<close>

definition codegen :: "entity \<Rightarrow> state \<Rightarrow> state" where
  "codegen e s = s\<lparr>lowered := lowered s @ [e]\<rparr>"

definition HandleDefinition :: "source_file \<Rightarrow> nat \<Rightarrow> state \<Rightarrow> state option" where
  "HandleDefinition f n s =
     (case ParseDefinition f n s of
        None \<Rightarrow> None
      | Some (Some FnAST, s1) \<Rightarrow>
          Some (case f of
                  main_cpp \<Rightarrow> fprintf_stderr ''Parsed a function definition.\<newline>'' s1
                | part_001 \<Rightarrow> codegen (Definition FnAST) s1)
      | Some (None, s1) \<Rightarrow> Some (snd (getNextToken s1)))"

definition HandleExtern :: "source_file \<Rightarrow> state \<Rightarrow> state" where
  "HandleExtern f s =
     (case ParseExtern s of
        (Some ProtoAST, s1) \<Rightarrow>
          (case f of
             main_cpp \<Rightarrow> fprintf_stderr ''Parsed an extern\<newline>'' s1
           | part_001 \<Rightarrow> codegen (Extern ProtoAST) s1)
      | (None, s1) \<Rightarrow> snd (getNextToken s1))"

definition HandleTopLevelExpression :: "source_file \<Rightarrow> nat \<Rightarrow> state \<Rightarrow> state option" where
  "HandleTopLevelExpression f n s =
     (case ParseTopLevelExpr f n s of
        None \<Rightarrow> None
      | Some (Some FnAST, s1) \<Rightarrow>
          Some (case f of
                  main_cpp \<Rightarrow> fprintf_stderr ''Parsed a top-level expr\<newline>'' s1
                | part_001 \<Rightarrow> codegen (TopLevelExpr FnAST) s1)
      | Some (None, s1) \<Rightarrow> Some (snd (getNextToken s1)))"

text \<open>
  The \<open>switch\<close> of \<open>MainLoop\<close> in \<open>main.cpp\<close> has no \<open>case tok_extern\<close>: there the token falls
  to \<open>default\<close>. The second file has the case. The first argument bounds the iterations and
  the depth of the parser calls below them.
\<close>

fun MainLoop :: "source_file \<Rightarrow> nat \<Rightarrow> state \<Rightarrow> state option" where
  "MainLoop f 0 s = None"
| "MainLoop f (Suc n) s =
     (let s1 = fprintf_stderr ''ready> '' s
      in if CurTok s1 = tok_eof then Some s1
         else if CurTok s1 = 59 then MainLoop f n (snd (getNextToken s1))
         else if CurTok s1 = tok_def then
           (case HandleDefinition f n s1 of None \<Rightarrow> None | Some s2 \<Rightarrow> MainLoop f n s2)
         else if f = part_001 \<and> CurTok s1 = tok_extern then
           MainLoop f n (HandleExtern f s1)
         else
           (case HandleTopLevelExpression f n s1 of
              None \<Rightarrow> None
            | Some s2 \<Rightarrow> MainLoop f n s2))"

text \<open>
  \<open>main\<close> fills the precedence table, prints the first prompt and reads the first token
  before it enters \<open>MainLoop\<close>; \<open>startup\<close> is the state at that point. The statics start
  as C initialises them: \<open>LastChar\<close> is a blank, the others are zero or empty.
\<close>

definition initial_state :: "string \<Rightarrow> state" where
  "initial_state inp =
     \<lparr>stdin = inp, LastChar = 32, IdentifierStr = [], NumVal = Finite 0, CurTok = 0,
      BinopPrecedence = Map.empty, stderr = [], lowered = []\<rparr>"

definition startup :: "string \<Rightarrow> state" where
  "startup inp =
     (let s0 = initial_state inp;
          s1 = s0\<lparr>BinopPrecedence := (BinopPrecedence s0)(CHR ''<'' \<mapsto> 10)\<rparr>;
          s2 = s1\<lparr>BinopPrecedence := (BinopPrecedence s1)(CHR ''+'' \<mapsto> 20)\<rparr>;
          s3 = s2\<lparr>BinopPrecedence := (BinopPrecedence s2)(CHR ''-'' \<mapsto> 20)\<rparr>;
          s4 = s3\<lparr>BinopPrecedence := (BinopPrecedence s3)(CHR ''*'' \<mapsto> 40)\<rparr>;
          s5 = fprintf_stderr ''ready> '' s4
      in snd (getNextToken s5))"

definition main :: "source_file \<Rightarrow> nat \<Rightarrow> string \<Rightarrow> state option" where
  "main f n inp = MainLoop f n (startup inp)"


section \<open>Notions used in the statements\<close>

text \<open>\<open>advance\<close> is a call of \<open>getNextToken\<close> for its effect; \<open>upcoming k s\<close> lists the next
  \<open>k\<close> tokens the lexer delivers from \<open>s\<close>.\<close>

definition advance :: "state \<Rightarrow> state" where
  "advance s = snd (getNextToken s)"

fun upcoming :: "nat \<Rightarrow> state \<Rightarrow> int list" where
  "upcoming 0 s = []"
| "upcoming (Suc k) s = fst (getNextToken s) # upcoming k (snd (getNextToken s))"

text \<open>The characters the number loop of \<open>getTok\<close> accumulates.\<close>

definition numeric_char :: "char \<Rightarrow> bool" where
  "numeric_char x = (isdigit (of_char x) \<or> of_char x = (46::int))"

text \<open>\<open>zero_extension m m'\<close>: the table \<open>m'\<close> is \<open>m\<close> with, possibly, some absent keys
  added with the value 0.\<close>

definition zero_extension :: "(char \<rightharpoonup> int) \<Rightarrow> (char \<rightharpoonup> int) \<Rightarrow> bool" where
  "zero_extension m m' = (\<forall>k. m' k = m k \<or> (m k = None \<and> m' k = Some 0))"


section \<open>Evaluation on concrete inputs\<close>

lemmas lex_eval = getTok.simps getNextToken_def ctype_defs tok_defs char_of_def strtod_def
  decimal_digits_def digits_value_def to_binary64_def round_half_even_def bit_length_numeral
  bit_length_1 Let_def

text \<open>The bounds of the concrete runs, as the successor terms the parser equations
  match.\<close>

lemma bound_unfold:
  "n + 3 = Suc (Suc (Suc n))"
  "n + 4 = Suc (Suc (Suc (Suc n)))"
  "n + 6 = Suc (Suc (Suc (Suc (Suc (Suc n)))))"
  "n + 8 = Suc (Suc (Suc (Suc (Suc (Suc (Suc (Suc n)))))))"
  "n + 10 = Suc (Suc (Suc (Suc (Suc (Suc (Suc (Suc (Suc (Suc n)))))))))"
  "n + 12 = Suc (Suc (Suc (Suc (Suc (Suc (Suc (Suc (Suc (Suc (Suc (Suc n)))))))))))"
  by simp_all

lemmas parse_eval = GetTokPrecedence_def ParseNumberExpr_def LogError_def LogErrorP_def
  fprintf_stderr_def startup_def initial_state_def ParsePrototype_def ParseDefinition_def
  ParseExtern_def ParseTopLevelExpr_def read_ArgNames.simps HandleDefinition_def
  HandleExtern_def HandleTopLevelExpression_def codegen_def main_def advance_def


section \<open>The precedence lookup\<close>

lemma fst_GetTokPrecedence:
  "fst (GetTokPrecedence f s) =
     (if (case f of main_cpp \<Rightarrow> isascii (CurTok s) | part_001 \<Rightarrow> \<not> isascii (CurTok s))
      then - 1
      else (case BinopPrecedence s (char_of (CurTok s)) of
              None \<Rightarrow> - 1
            | Some v \<Rightarrow> if v \<le> 0 then - 1 else v))"
  by (simp add: GetTokPrecedence_def Let_def split: option.splits)

lemma lookup_after_insert:
  assumes "BinopPrecedence s k = None"
  shows "fst (GetTokPrecedence f (s\<lparr>BinopPrecedence := (BinopPrecedence s)(k \<mapsto> 0), CurTok := t\<rparr>)) =
         fst (GetTokPrecedence f (s\<lparr>CurTok := t\<rparr>))"
proof (cases "char_of t = k")
  case True
  with assms show ?thesis
    by (cases f) (simp_all add: fst_GetTokPrecedence)
next
  case False
  then show ?thesis
    by (cases f) (simp_all add: fst_GetTokPrecedence)
qed

lemma GetTokPrecedence_main_cpp_ascii:
  "isascii (CurTok s) \<Longrightarrow> GetTokPrecedence main_cpp s = (- 1, s)"
  by (simp add: GetTokPrecedence_def)

text \<open>In the second file the lookup does what the table says: a positive entry of an
  ASCII token is returned, everything else is \<open>-1\<close>.\<close>

lemma GetTokPrecedence_part_001:
  "fst (GetTokPrecedence part_001 s) =
     (if isascii (CurTok s)
      then (case BinopPrecedence s (char_of (CurTok s)) of
              None \<Rightarrow> - 1
            | Some v \<Rightarrow> if 0 < v then v else - 1)
      else - 1)"
  by (auto simp: fst_GetTokPrecedence split: option.splits)

lemma GetTokPrecedence_part_001_default_table:
  "fst (GetTokPrecedence part_001 ((startup [])\<lparr>CurTok := of_char CHR ''+''\<rparr>)) = 20"
  "fst (GetTokPrecedence part_001 ((startup [])\<lparr>CurTok := of_char CHR ''-''\<rparr>)) = 20"
  "fst (GetTokPrecedence part_001 ((startup [])\<lparr>CurTok := of_char CHR ''*''\<rparr>)) = 40"
  "fst (GetTokPrecedence part_001 ((startup [])\<lparr>CurTok := of_char CHR ''<''\<rparr>)) = 10"
  "fst (GetTokPrecedence part_001 ((startup [])\<lparr>CurTok := of_char CHR '')''\<rparr>)) = - 1"
  "fst (GetTokPrecedence part_001 ((startup [])\<lparr>CurTok := of_char CHR '',''\<rparr>)) = - 1"
  "fst (GetTokPrecedence part_001 ((startup [])\<lparr>CurTok := tok_eof\<rparr>)) = - 1"
  "fst (GetTokPrecedence part_001 ((startup [])\<lparr>CurTok := tok_def\<rparr>)) = - 1"
  "fst (GetTokPrecedence part_001 ((startup [])\<lparr>CurTok := tok_identifier\<rparr>)) = - 1"
  by (simp_all add: lex_eval parse_eval)

lemma GetTokPrecedence_state:
  "snd (GetTokPrecedence f s) = s \<or>
   (BinopPrecedence s (char_of (CurTok s)) = None \<and>
    snd (GetTokPrecedence f s) =
      s\<lparr>BinopPrecedence := (BinopPrecedence s)(char_of (CurTok s) \<mapsto> 0)\<rparr>)"
  by (auto simp: GetTokPrecedence_def Let_def split: option.splits source_file.splits)

lemma GetTokPrecedence_stable:
  "fst (GetTokPrecedence f (snd (GetTokPrecedence f' s)\<lparr>CurTok := t\<rparr>)) =
   fst (GetTokPrecedence f (s\<lparr>CurTok := t\<rparr>))"
  using GetTokPrecedence_state [of f' s] lookup_after_insert [of s "char_of (CurTok s)" f t]
  by auto


section \<open>The table under parsing\<close>

lemma zero_extension_refl [simp]: "zero_extension m m"
  by (simp add: zero_extension_def)

lemma zero_extension_trans:
  "zero_extension m1 m2 \<Longrightarrow> zero_extension m2 m3 \<Longrightarrow> zero_extension m1 m3"
  unfolding zero_extension_def by metis

lemma getTok_BinopPrecedence [simp]: "BinopPrecedence (snd (getTok s)) = BinopPrecedence s"
proof (induction s rule: getTok.induct)
  case (1 s)
  show ?case
    apply (subst getTok.simps)
    using 1
    apply (auto simp: Let_def split: prod.splits list.splits)
    done
qed

lemma getNextToken_BinopPrecedence [simp]:
  "BinopPrecedence (snd (getNextToken s)) = BinopPrecedence s"
  using getTok_BinopPrecedence [of s]
  by (cases "getTok s") (simp add: getNextToken_def)

lemma read_ArgNames_BinopPrecedence [simp]:
  "BinopPrecedence (snd (read_ArgNames ArgNames s)) = BinopPrecedence s"
proof (induction ArgNames s rule: read_ArgNames.induct)
  case (1 ArgNames s)
  obtain t s1 where g: "getNextToken s = (t, s1)" by fastforce
  then have "BinopPrecedence s1 = BinopPrecedence s"
    using getNextToken_BinopPrecedence [of s] by simp
  then show ?case
    using g "1.IH" [OF g [symmetric] refl]
    by (subst read_ArgNames.simps) simp
qed

lemma LogError_BinopPrecedence [simp]:
  "BinopPrecedence (LogError Str s) = BinopPrecedence s"
  "BinopPrecedence (LogErrorP Str s) = BinopPrecedence s"
  "BinopPrecedence (fprintf_stderr Str s) = BinopPrecedence s"
  "BinopPrecedence (codegen e s) = BinopPrecedence s"
  by (simp_all add: LogError_def LogErrorP_def fprintf_stderr_def codegen_def)

lemma ParsePrototype_BinopPrecedence [simp]:
  "BinopPrecedence (snd (ParsePrototype s)) = BinopPrecedence s"
  using read_ArgNames_BinopPrecedence [of "[]" "snd (getNextToken s)"]
  by (cases "read_ArgNames [] (snd (getNextToken s))") (simp add: ParsePrototype_def Let_def)

lemma GetTokPrecedence_zero_extension:
  "zero_extension (BinopPrecedence s) (BinopPrecedence (snd (GetTokPrecedence f s)))"
  by (auto simp: GetTokPrecedence_def Let_def zero_extension_def split: option.splits)

lemma parser_zero_extension:
  "(\<forall>r s'. ParsePrimary f n s = Some (r, s') \<longrightarrow> zero_extension (BinopPrecedence s) (BinopPrecedence s')) \<and>
   (\<forall>r s'. ParseParenExpr f n s = Some (r, s') \<longrightarrow> zero_extension (BinopPrecedence s) (BinopPrecedence s')) \<and>
   (\<forall>r s'. ParseIdentifierExpr f n s = Some (r, s') \<longrightarrow> zero_extension (BinopPrecedence s) (BinopPrecedence s')) \<and>
   (\<forall>r s'. ParseArgs f n Args s = Some (r, s') \<longrightarrow> zero_extension (BinopPrecedence s) (BinopPrecedence s')) \<and>
   (\<forall>r s'. ParseBinOpRHS f n ExprPrec LHS s = Some (r, s') \<longrightarrow> zero_extension (BinopPrecedence s) (BinopPrecedence s')) \<and>
   (\<forall>r s'. ParseExpression f n s = Some (r, s') \<longrightarrow> zero_extension (BinopPrecedence s) (BinopPrecedence s'))"
proof (induction n arbitrary: s Args ExprPrec LHS)
  case 0
  show ?case by simp
next
  case (Suc n)
  note IH = Suc.IH
  have prim: "zero_extension (BinopPrecedence s) (BinopPrecedence s')"
    if "ParsePrimary f (Suc n) s = Some (r, s')" for r s s'
    using that IH [of s]
    by (auto simp: ParseNumberExpr_def Let_def split: if_splits)
  have paren: "zero_extension (BinopPrecedence s) (BinopPrecedence s')"
    if "ParseParenExpr f (Suc n) s = Some (r, s')" for r s s'
    using that IH [of "snd (getNextToken s)"]
    by (auto split: option.splits if_splits)
  have ident: "zero_extension (BinopPrecedence s) (BinopPrecedence s')"
    if "ParseIdentifierExpr f (Suc n) s = Some (r, s')" for r s s'
    using that IH [of "snd (getNextToken (snd (getNextToken s)))" "[]"]
    by (auto simp: Let_def split: option.splits if_splits)
  have args: "zero_extension (BinopPrecedence s) (BinopPrecedence s')"
    if "ParseArgs f (Suc n) Args s = Some (r, s')" for r s s' Args
  proof -
    from that obtain r1 s1 where e: "ParseExpression f n s = Some (r1, s1)"
      by (auto split: option.splits)
    then have z1: "zero_extension (BinopPrecedence s) (BinopPrecedence s1)"
      using IH [of s] by blast
    show ?thesis
    proof (cases r1)
      case None
      with that e z1 show ?thesis by simp
    next
      case (Some a)
      with that e z1 IH [of "snd (getNextToken s1)" "Args @ [a]"] show ?thesis
        by (auto split: if_splits intro: zero_extension_trans)
    qed
  qed
  have expr: "zero_extension (BinopPrecedence s) (BinopPrecedence s')"
    if "ParseExpression f (Suc n) s = Some (r, s')" for r s s'
  proof -
    from that obtain r1 s1 where e: "ParsePrimary f n s = Some (r1, s1)"
      by (auto split: option.splits)
    then have z1: "zero_extension (BinopPrecedence s) (BinopPrecedence s1)"
      using IH [of s] by blast
    show ?thesis
    proof (cases r1)
      case None
      with that e z1 show ?thesis by simp
    next
      case (Some a)
      with that e have "ParseBinOpRHS f n 0 a s1 = Some (r, s')" by simp
      then have "zero_extension (BinopPrecedence s1) (BinopPrecedence s')"
        using IH [of s1 _ 0 a] by blast
      with z1 show ?thesis by (rule zero_extension_trans)
    qed
  qed
  have binop: "zero_extension (BinopPrecedence s) (BinopPrecedence s')"
    if B: "ParseBinOpRHS f (Suc n) ExprPrec LHS s = Some (r, s')" for r s s' ExprPrec LHS
  proof -
    obtain TokPrec s1 where g1: "GetTokPrecedence f s = (TokPrec, s1)" by fastforce
    have z1: "zero_extension (BinopPrecedence s) (BinopPrecedence s1)"
      using GetTokPrecedence_zero_extension [of s f] g1 by simp
    show ?thesis
    proof (cases "TokPrec < ExprPrec")
      case True
      with B g1 z1 show ?thesis by simp
    next
      case False
      let ?s2 = "snd (getNextToken s1)"
      from B g1 False obtain r3 s3 where p: "ParsePrimary f n ?s2 = Some (r3, s3)"
        by (auto simp: Let_def split: option.splits)
      then have "zero_extension (BinopPrecedence ?s2) (BinopPrecedence s3)"
        using IH [of ?s2] by blast
      with z1 have z3: "zero_extension (BinopPrecedence s) (BinopPrecedence s3)"
        by (auto intro: zero_extension_trans)
      show ?thesis
      proof (cases r3)
        case None
        with B g1 False p z3 show ?thesis by (simp add: Let_def)
      next
        case (Some RHS)
        obtain NextPrec s4 where g4: "GetTokPrecedence f s3 = (NextPrec, s4)" by fastforce
        have "zero_extension (BinopPrecedence s3) (BinopPrecedence s4)"
          using GetTokPrecedence_zero_extension [of s3 f] g4 by simp
        with z3 have z4: "zero_extension (BinopPrecedence s) (BinopPrecedence s4)"
          by (rule zero_extension_trans)
        show ?thesis
        proof (cases "TokPrec < NextPrec")
          case True
          with B g1 False p Some g4 obtain r5 s5
            where b5: "ParseBinOpRHS f n (TokPrec + 1) RHS s4 = Some (r5, s5)"
            by (auto simp: Let_def split: option.splits)
          then have "zero_extension (BinopPrecedence s4) (BinopPrecedence s5)"
            using IH [of s4 _ "TokPrec + 1" RHS] by blast
          with z4 have z5: "zero_extension (BinopPrecedence s) (BinopPrecedence s5)"
            by (rule zero_extension_trans)
          show ?thesis
          proof (cases r5)
            case None
            with B g1 False p Some g4 True b5 z5 show ?thesis by (simp add: Let_def)
          next
            case (Some RHS')
            with B g1 False p \<open>r3 = Some RHS\<close> g4 True b5
            have "ParseBinOpRHS f n ExprPrec (BinaryExprAST (char_of (CurTok s1)) LHS RHS') s5
                  = Some (r, s')"
              by (simp add: Let_def)
            then have "zero_extension (BinopPrecedence s5) (BinopPrecedence s')"
              using IH [of s5 _ ExprPrec "BinaryExprAST (char_of (CurTok s1)) LHS RHS'"] by blast
            with z5 show ?thesis by (rule zero_extension_trans)
          qed
        next
          case F2: False
          with B g1 False p Some g4
          have "ParseBinOpRHS f n ExprPrec (BinaryExprAST (char_of (CurTok s1)) LHS RHS) s4
                  = Some (r, s')"
            by (simp add: Let_def)
          then have "zero_extension (BinopPrecedence s4) (BinopPrecedence s')"
            using IH [of s4 _ ExprPrec "BinaryExprAST (char_of (CurTok s1)) LHS RHS"] by blast
          with z4 show ?thesis by (rule zero_extension_trans)
        qed
      qed
    qed
  qed
  show ?case
    by (intro conjI allI impI) (erule prim paren ident args binop expr)+
qed

lemma ParseExpression_zero_extension:
  "ParseExpression f n s = Some (r, s') \<Longrightarrow>
   zero_extension (BinopPrecedence s) (BinopPrecedence s')"
  using parser_zero_extension [of f n s] by blast

lemma ParseDefinition_zero_extension:
  assumes "ParseDefinition f n s = Some (r, s')"
  shows "zero_extension (BinopPrecedence s) (BinopPrecedence s')"
proof -
  obtain p s1 where pp: "ParsePrototype (snd (getNextToken s)) = (p, s1)" by fastforce
  have t1: "BinopPrecedence s1 = BinopPrecedence s"
    using ParsePrototype_BinopPrecedence [of "snd (getNextToken s)"] pp by simp
  show ?thesis
  proof (cases p)
    case None
    with assms pp t1 show ?thesis by (simp add: ParseDefinition_def)
  next
    case (Some Proto)
    with assms pp obtain r2 where "ParseExpression f n s1 = Some (r2, s')"
      by (auto simp: ParseDefinition_def split: option.splits)
    from ParseExpression_zero_extension [OF this] t1 show ?thesis by simp
  qed
qed

lemma ParseTopLevelExpr_zero_extension:
  assumes "ParseTopLevelExpr f n s = Some (r, s')"
  shows "zero_extension (BinopPrecedence s) (BinopPrecedence s')"
proof -
  from assms obtain r2 where "ParseExpression f n s = Some (r2, s')"
    by (auto simp: ParseTopLevelExpr_def split: option.splits)
  then show ?thesis by (rule ParseExpression_zero_extension)
qed

lemma HandleDefinition_zero_extension:
  assumes "HandleDefinition f n s = Some s'"
  shows "zero_extension (BinopPrecedence s) (BinopPrecedence s')"
proof -
  from assms obtain r s1 where pd: "ParseDefinition f n s = Some (r, s1)"
    and "BinopPrecedence s' = BinopPrecedence s1"
    by (cases f) (auto simp: HandleDefinition_def split: option.splits)
  with ParseDefinition_zero_extension [OF pd] show ?thesis by simp
qed

lemma HandleTopLevelExpression_zero_extension:
  assumes "HandleTopLevelExpression f n s = Some s'"
  shows "zero_extension (BinopPrecedence s) (BinopPrecedence s')"
proof -
  from assms obtain r s1 where pd: "ParseTopLevelExpr f n s = Some (r, s1)"
    and "BinopPrecedence s' = BinopPrecedence s1"
    by (cases f) (auto simp: HandleTopLevelExpression_def split: option.splits)
  with ParseTopLevelExpr_zero_extension [OF pd] show ?thesis by simp
qed

lemma HandleExtern_BinopPrecedence [simp]:
  "BinopPrecedence (HandleExtern f s) = BinopPrecedence s"
proof -
  obtain p s1 where pp: "ParsePrototype (snd (getNextToken s)) = (p, s1)" by fastforce
  have "BinopPrecedence s1 = BinopPrecedence s"
    using ParsePrototype_BinopPrecedence [of "snd (getNextToken s)"] pp by simp
  with pp show ?thesis
    by (cases f; cases p) (simp_all add: HandleExtern_def ParseExtern_def)
qed

lemma MainLoop_zero_extension:
  "MainLoop f n s = Some s' \<Longrightarrow> zero_extension (BinopPrecedence s) (BinopPrecedence s')"
proof (induction n arbitrary: s)
  case 0
  then show ?case by simp
next
  case (Suc n)
  let ?s1 = "fprintf_stderr ''ready> '' s"
  have t1: "BinopPrecedence ?s1 = BinopPrecedence s" by simp
  consider (eof) "CurTok ?s1 = tok_eof"
    | (semi) "CurTok ?s1 \<noteq> tok_eof" "CurTok ?s1 = 59"
    | (def) "CurTok ?s1 \<noteq> tok_eof" "CurTok ?s1 \<noteq> 59" "CurTok ?s1 = tok_def"
    | (ext) "CurTok ?s1 \<noteq> tok_eof" "CurTok ?s1 \<noteq> 59" "CurTok ?s1 \<noteq> tok_def"
        "f = part_001 \<and> CurTok ?s1 = tok_extern"
    | (top) "CurTok ?s1 \<noteq> tok_eof" "CurTok ?s1 \<noteq> 59" "CurTok ?s1 \<noteq> tok_def"
        "\<not> (f = part_001 \<and> CurTok ?s1 = tok_extern)"
    by blast
  then show ?case
  proof cases
    case eof
    with Suc.prems have "s' = ?s1" by (simp add: Let_def)
    then show ?thesis by simp
  next
    case semi
    with Suc.prems have "MainLoop f n (snd (getNextToken ?s1)) = Some s'"
      by (simp add: Let_def)
    from Suc.IH [OF this] show ?thesis by simp
  next
    case def
    with Suc.prems obtain s2 where h: "HandleDefinition f n ?s1 = Some s2"
      and m: "MainLoop f n s2 = Some s'"
      by (auto simp: Let_def split: option.splits)
    from HandleDefinition_zero_extension [OF h] Suc.IH [OF m] show ?thesis
      by (auto intro: zero_extension_trans)
  next
    case ext
    with Suc.prems have "MainLoop f n (HandleExtern f ?s1) = Some s'"
      by (simp add: Let_def)
    from Suc.IH [OF this] show ?thesis by simp
  next
    case top
    with Suc.prems obtain s2 where h: "HandleTopLevelExpression f n ?s1 = Some s2"
      and m: "MainLoop f n s2 = Some s'"
      by (auto simp: Let_def split: option.splits)
    from HandleTopLevelExpression_zero_extension [OF h] Suc.IH [OF m] show ?thesis
      by (auto intro: zero_extension_trans)
  qed
qed


section \<open>The lexer on numbers and the prototype loop\<close>

lemma read_number_run:
  assumes "list_all numeric_char run" and "rest = [] \<or> \<not> numeric_char (hd rest)"
  shows "read_number NumStr c (run @ rest) =
           (NumStr @ char_of c # run, if rest = [] then EOF else of_char (hd rest), tl rest)"
  using assms
proof (induction run arbitrary: NumStr c)
  case Nil
  then show ?case by (cases rest) (auto simp: numeric_char_def)
next
  case (Cons x run)
  then have x: "numeric_char x" and run: "list_all numeric_char run" by simp_all
  have "read_number (NumStr @ [char_of c]) (of_char x) (run @ rest) =
          ((NumStr @ [char_of c]) @ char_of (of_char x :: int) # run,
           if rest = [] then EOF else of_char (hd rest), tl rest)"
    by (rule Cons.IH [OF run Cons.prems(2)])
  with x show ?case by (simp add: numeric_char_def)
qed

lemma CurTok_getNextToken [simp]: "CurTok (snd (getNextToken s)) = fst (getNextToken s)"
  by (cases "getTok s") (simp add: getNextToken_def)

lemma read_ArgNames_identifiers:
  assumes "upcoming (Suc k) s = replicate k tok_identifier @ [t]" and "t \<noteq> tok_identifier"
  shows "snd (read_ArgNames ArgNames s) = (advance ^^ Suc k) s"
  using assms
proof (induction k arbitrary: s ArgNames)
  case 0
  then show ?case
    by (subst read_ArgNames.simps) (cases "getNextToken s", simp add: advance_def)
next
  case (Suc k)
  from Suc.prems(1) have t1: "fst (getNextToken s) = tok_identifier"
    and rest: "upcoming (Suc k) (advance s) = replicate k tok_identifier @ [t]"
    by (simp_all add: advance_def)
  have "read_ArgNames ArgNames s =
        read_ArgNames (ArgNames @ [IdentifierStr (advance s)]) (advance s)"
    using t1 by (subst read_ArgNames.simps) (cases "getNextToken s", simp add: advance_def)
  with Suc.IH [OF rest Suc.prems(2)] show ?case
    by (simp add: funpow_swap1)
qed

lemma upcoming_last:
  "upcoming (Suc k) s = ts @ [t] \<Longrightarrow> CurTok ((advance ^^ Suc k) s) = t"
proof (induction k arbitrary: s ts)
  case 0
  then show ?case by (simp add: advance_def)
next
  case (Suc k)
  from Suc.prems obtain ts' where "upcoming (Suc k) (advance s) = ts' @ [t]"
    by (cases ts) (auto simp: advance_def)
  from Suc.IH [OF this] show ?case by (simp add: funpow_swap1)
qed


lemma read_ArgNames_names:
  assumes "upcoming (Suc k) s = replicate k tok_identifier @ [t]" and "t \<noteq> tok_identifier"
  shows "fst (read_ArgNames ArgNames s) =
           ArgNames @ map (\<lambda>i. IdentifierStr ((advance ^^ Suc i) s)) [0..<k]"
  using assms
proof (induction k arbitrary: s ArgNames)
  case 0
  then show ?case
    by (subst read_ArgNames.simps) (cases "getNextToken s", simp)
next
  case (Suc k)
  from Suc.prems(1) have t1: "fst (getNextToken s) = tok_identifier"
    and rest: "upcoming (Suc k) (advance s) = replicate k tok_identifier @ [t]"
    by (simp_all add: advance_def)
  have "read_ArgNames ArgNames s =
        read_ArgNames (ArgNames @ [IdentifierStr (advance s)]) (advance s)"
    using t1 by (subst read_ArgNames.simps) (cases "getNextToken s", simp add: advance_def)
  moreover have "map (\<lambda>i. IdentifierStr ((advance ^^ Suc i) s)) [0..<Suc k] =
      IdentifierStr (advance s) # map (\<lambda>i. IdentifierStr ((advance ^^ Suc i) (advance s))) [0..<k]"
    by (simp add: upt_conv_Cons map_Suc_upt [symmetric] funpow_swap1 del: upt_Suc)
  ultimately show ?case
    using Suc.IH [OF rest Suc.prems(2), of "ArgNames @ [IdentifierStr (advance s)]"]
    by simp
qed

text \<open>What \<open>ParsePrototype\<close> asks for: a name, then \<open>(\<close>, then identifiers up to the first
  other token, which has to be \<open>)\<close> and is consumed.\<close>

lemma ParsePrototype_requires_name:
  "CurTok s \<noteq> tok_identifier \<Longrightarrow>
   ParsePrototype s = (None, LogErrorP ''Expected function name in prototype'' s)"
  by (simp add: ParsePrototype_def)

lemma ParsePrototype_requires_paren:
  "CurTok s = tok_identifier \<Longrightarrow> CurTok (advance s) \<noteq> 40 \<Longrightarrow>
   ParsePrototype s = (None, LogErrorP ''Expected '(' in prototype'' (advance s))"
  by (simp add: ParsePrototype_def advance_def Let_def)

lemma ParsePrototype_accepts:
  assumes "CurTok s = tok_identifier"
    and "upcoming (k + 2) s = 40 # replicate k tok_identifier @ [41]"
  shows "ParsePrototype s =
           (Some (PrototypeAST (IdentifierStr s)
                    (map (\<lambda>i. IdentifierStr ((advance ^^ (i + 2)) s)) [0..<k])),
            (advance ^^ (k + 3)) s)"
proof -
  let ?s1 = "advance s"
  have k2: "k + 2 = Suc (Suc k)" and k3: "k + 3 = Suc (Suc (Suc k))" by simp_all
  from assms(2) have t1: "CurTok ?s1 = 40"
    and rest: "upcoming (Suc k) ?s1 = replicate k tok_identifier @ [41]"
    by (simp_all add: k2 advance_def)
  have ne: "(41::int) \<noteq> tok_identifier" by (simp add: tok_defs)
  have st: "snd (read_ArgNames [] ?s1) = (advance ^^ Suc k) ?s1"
    by (rule read_ArgNames_identifiers [OF rest ne])
  have nm: "fst (read_ArgNames [] ?s1) =
      map (\<lambda>i. IdentifierStr ((advance ^^ (i + 2)) s)) [0..<k]"
    using read_ArgNames_names [OF rest ne, of "[]"] by (simp add: funpow_swap1)
  have cur: "CurTok ((advance ^^ Suc k) ?s1) = 41"
    by (rule upcoming_last [OF rest])
  have fin: "advance ((advance ^^ Suc k) ?s1) = (advance ^^ (k + 3)) s"
    by (simp add: k3 funpow_swap1)
  show ?thesis
    using assms(1) t1 st nm cur fin
    by (cases "read_ArgNames [] ?s1") (simp add: ParsePrototype_def Let_def advance_def)
qed


section \<open>The bound on the parser\<close>

text \<open>A result obtained under some bound is the result under every larger bound, for the
  expression parser and for the driver: the bound only has to be large enough.\<close>

lemma parser_bound_mono:
  "(\<forall>r. ParsePrimary f n s = Some r \<longrightarrow> ParsePrimary f (Suc n) s = Some r) \<and>
   (\<forall>r. ParseParenExpr f n s = Some r \<longrightarrow> ParseParenExpr f (Suc n) s = Some r) \<and>
   (\<forall>r. ParseIdentifierExpr f n s = Some r \<longrightarrow> ParseIdentifierExpr f (Suc n) s = Some r) \<and>
   (\<forall>r. ParseArgs f n Args s = Some r \<longrightarrow> ParseArgs f (Suc n) Args s = Some r) \<and>
   (\<forall>r. ParseBinOpRHS f n ExprPrec LHS s = Some r \<longrightarrow>
        ParseBinOpRHS f (Suc n) ExprPrec LHS s = Some r) \<and>
   (\<forall>r. ParseExpression f n s = Some r \<longrightarrow> ParseExpression f (Suc n) s = Some r)"
proof (induction n arbitrary: s Args ExprPrec LHS)
  case 0
  show ?case by simp
next
  case (Suc n)
  note IH = Suc.IH
  note [simp del] = ParsePrimary.simps ParseParenExpr.simps ParseIdentifierExpr.simps
    ParseArgs.simps ParseBinOpRHS.simps ParseExpression.simps
  have prim: "ParsePrimary f (Suc (Suc n)) s = Some r"
    if P: "ParsePrimary f (Suc n) s = Some r" for r s
  proof -
    have i: "ParseIdentifierExpr f n s = Some r \<Longrightarrow> ParseIdentifierExpr f (Suc n) s = Some r"
      and p: "ParseParenExpr f n s = Some r \<Longrightarrow> ParseParenExpr f (Suc n) s = Some r"
      using IH [of s] by blast+
    with P [unfolded ParsePrimary.simps(2)] show ?thesis
      by (subst ParsePrimary.simps(2)) (auto split: if_splits)
  qed
  have paren: "ParseParenExpr f (Suc (Suc n)) s = Some r"
    if P: "ParseParenExpr f (Suc n) s = Some r" for r s
  proof -
    from P [unfolded ParseParenExpr.simps(2)]
    obtain r1 where e: "ParseExpression f n (snd (getNextToken s)) = Some r1"
      by (auto split: option.splits)
    then have "ParseExpression f (Suc n) (snd (getNextToken s)) = Some r1"
      using IH [of "snd (getNextToken s)"] by blast
    with e P [unfolded ParseParenExpr.simps(2)] show ?thesis
      by (subst ParseParenExpr.simps(2)) auto
  qed
  have ident: "ParseIdentifierExpr f (Suc (Suc n)) s = Some r"
    if P: "ParseIdentifierExpr f (Suc n) s = Some r" for r s
  proof -
    let ?s2 = "snd (getNextToken (snd (getNextToken s)))"
    show ?thesis
    proof (cases "CurTok (snd (getNextToken s)) \<noteq> 40 \<or> CurTok ?s2 = 41")
      case True
      with P [unfolded ParseIdentifierExpr.simps(2)] show ?thesis
        by (subst ParseIdentifierExpr.simps(2)) (auto simp: Let_def)
    next
      case False
      with P [unfolded ParseIdentifierExpr.simps(2)]
      obtain r1 where e: "ParseArgs f n [] ?s2 = Some r1"
        by (auto simp: Let_def split: option.splits)
      then have "ParseArgs f (Suc n) [] ?s2 = Some r1"
        using IH [of ?s2 "[]"] by blast
      with e False P [unfolded ParseIdentifierExpr.simps(2)] show ?thesis
        by (subst ParseIdentifierExpr.simps(2)) (auto simp: Let_def)
    qed
  qed
  have args: "ParseArgs f (Suc (Suc n)) Args s = Some r"
    if A: "ParseArgs f (Suc n) Args s = Some r" for r s Args
  proof -
    note A' = A [unfolded ParseArgs.simps(2)]
    from A' obtain r1 s1 where e: "ParseExpression f n s = Some (r1, s1)"
      by (auto split: option.splits)
    then have e': "ParseExpression f (Suc n) s = Some (r1, s1)" using IH [of s] by blast
    show ?thesis
    proof (cases r1)
      case None
      with A' e e' show ?thesis by (subst ParseArgs.simps(2)) auto
    next
      case (Some a)
      show ?thesis
      proof (cases "CurTok s1 = 41 \<or> CurTok s1 \<noteq> 44")
        case True
        with A' e e' Some show ?thesis by (subst ParseArgs.simps(2)) auto
      next
        case False
        with A' e Some have "ParseArgs f n (Args @ [a]) (snd (getNextToken s1)) = Some r"
          by simp
        then have "ParseArgs f (Suc n) (Args @ [a]) (snd (getNextToken s1)) = Some r"
          using IH [of "snd (getNextToken s1)" "Args @ [a]"] by blast
        with e' Some False show ?thesis by (subst ParseArgs.simps(2)) auto
      qed
    qed
  qed
  have expr: "ParseExpression f (Suc (Suc n)) s = Some r"
    if E: "ParseExpression f (Suc n) s = Some r" for r s
  proof -
    note E' = E [unfolded ParseExpression.simps(2)]
    from E' obtain r1 s1 where e: "ParsePrimary f n s = Some (r1, s1)"
      by (auto split: option.splits)
    then have e': "ParsePrimary f (Suc n) s = Some (r1, s1)" using IH [of s] by blast
    show ?thesis
    proof (cases r1)
      case None
      with E' e e' show ?thesis by (subst ParseExpression.simps(2)) auto
    next
      case (Some a)
      with E' e have "ParseBinOpRHS f n 0 a s1 = Some r" by simp
      then have "ParseBinOpRHS f (Suc n) 0 a s1 = Some r" using IH [of s1 _ 0 a] by blast
      with e' Some show ?thesis by (subst ParseExpression.simps(2)) auto
    qed
  qed
  have binop: "ParseBinOpRHS f (Suc (Suc n)) ExprPrec LHS s = Some r"
    if B: "ParseBinOpRHS f (Suc n) ExprPrec LHS s = Some r" for r s ExprPrec LHS
  proof -
    note B' = B [unfolded ParseBinOpRHS.simps(2)]
    obtain TokPrec s1 where g1: "GetTokPrecedence f s = (TokPrec, s1)" by fastforce
    show ?thesis
    proof (cases "TokPrec < ExprPrec")
      case True
      with B' g1 show ?thesis by (subst ParseBinOpRHS.simps(2)) auto
    next
      case False
      let ?s2 = "snd (getNextToken s1)"
      from B' g1 False obtain r3 s3 where p: "ParsePrimary f n ?s2 = Some (r3, s3)"
        by (auto simp: Let_def split: option.splits)
      then have p': "ParsePrimary f (Suc n) ?s2 = Some (r3, s3)" using IH [of ?s2] by blast
      show ?thesis
      proof (cases r3)
        case None
        with B' g1 False p p' show ?thesis
          by (subst ParseBinOpRHS.simps(2)) (auto simp: Let_def)
      next
        case (Some RHS)
        obtain NextPrec s4 where g4: "GetTokPrecedence f s3 = (NextPrec, s4)" by fastforce
        show ?thesis
        proof (cases "TokPrec < NextPrec")
          case True
          with B' g1 False p Some g4 obtain r5 s5
            where b5: "ParseBinOpRHS f n (TokPrec + 1) RHS s4 = Some (r5, s5)"
            by (auto simp: Let_def split: option.splits)
          then have b5': "ParseBinOpRHS f (Suc n) (TokPrec + 1) RHS s4 = Some (r5, s5)"
            using IH [of s4 _ "TokPrec + 1" RHS] by blast
          show ?thesis
          proof (cases r5)
            case None
            with B' g1 False p p' Some g4 True b5 b5' show ?thesis
              by (subst ParseBinOpRHS.simps(2)) (auto simp: Let_def)
          next
            case (Some RHS')
            with B' g1 False p \<open>r3 = Some RHS\<close> g4 True b5
            have "ParseBinOpRHS f n ExprPrec (BinaryExprAST (char_of (CurTok s1)) LHS RHS') s5
                  = Some r"
              by (simp add: Let_def)
            then have "ParseBinOpRHS f (Suc n) ExprPrec
                         (BinaryExprAST (char_of (CurTok s1)) LHS RHS') s5 = Some r"
              using IH [of s5 _ ExprPrec "BinaryExprAST (char_of (CurTok s1)) LHS RHS'"] by blast
            with g1 False p' \<open>r3 = Some RHS\<close> g4 True b5' Some show ?thesis
              by (subst ParseBinOpRHS.simps(2)) (auto simp: Let_def)
          qed
        next
          case F2: False
          with B' g1 False p Some g4
          have "ParseBinOpRHS f n ExprPrec (BinaryExprAST (char_of (CurTok s1)) LHS RHS) s4
                  = Some r"
            by (simp add: Let_def)
          then have "ParseBinOpRHS f (Suc n) ExprPrec
                       (BinaryExprAST (char_of (CurTok s1)) LHS RHS) s4 = Some r"
            using IH [of s4 _ ExprPrec "BinaryExprAST (char_of (CurTok s1)) LHS RHS"] by blast
          with g1 False p' Some g4 F2 show ?thesis
            by (subst ParseBinOpRHS.simps(2)) (auto simp: Let_def)
        qed
      qed
    qed
  qed
  show ?case
    by (intro conjI allI impI) (erule prim paren ident args binop expr)+
qed

lemma ParseExpression_Suc:
  "ParseExpression f n s = Some r \<Longrightarrow> ParseExpression f (Suc n) s = Some r"
  using parser_bound_mono [of f n s] by blast

lemma ParseExpression_bound_mono:
  assumes "n \<le> m" and "ParseExpression f n s = Some r"
  shows "ParseExpression f m s = Some r"
  using assms
proof (induction rule: dec_induct)
  case base
  then show ?case .
next
  case (step m)
  then show ?case by (intro ParseExpression_Suc) blast
qed

lemma ParseExpression_bound_irrelevant:
  assumes "ParseExpression f n s = Some r" and "ParseExpression f m s = Some r'"
  shows "r = r'"
proof (cases "n \<le> m")
  case True
  from ParseExpression_bound_mono [OF this assms(1)] assms(2) show ?thesis by simp
next
  case False
  then have "m \<le> n" by simp
  from ParseExpression_bound_mono [OF this assms(2)] assms(1) show ?thesis by simp
qed

lemma HandleDefinition_Suc:
  assumes "HandleDefinition f n s = Some r"
  shows "HandleDefinition f (Suc n) s = Some r"
proof -
  obtain p s1 where pp: "ParsePrototype (snd (getNextToken s)) = (p, s1)" by fastforce
  show ?thesis
  proof (cases p)
    case None
    with assms pp show ?thesis by (simp add: HandleDefinition_def ParseDefinition_def)
  next
    case (Some Proto)
    with assms pp obtain r2 where e: "ParseExpression f n s1 = Some r2"
      by (auto simp: HandleDefinition_def ParseDefinition_def split: option.splits)
    from ParseExpression_Suc [OF e] e assms pp Some show ?thesis
      by (simp add: HandleDefinition_def ParseDefinition_def del: ParseExpression.simps)
  qed
qed

lemma HandleTopLevelExpression_Suc:
  assumes "HandleTopLevelExpression f n s = Some r"
  shows "HandleTopLevelExpression f (Suc n) s = Some r"
proof -
  from assms obtain r2 where e: "ParseExpression f n s = Some r2"
    by (auto simp: HandleTopLevelExpression_def ParseTopLevelExpr_def split: option.splits)
  from ParseExpression_Suc [OF e] e assms show ?thesis
    by (simp add: HandleTopLevelExpression_def ParseTopLevelExpr_def del: ParseExpression.simps)
qed

lemma MainLoop_Suc:
  "MainLoop f n s = Some r \<Longrightarrow> MainLoop f (Suc n) s = Some r"
proof (induction n arbitrary: s)
  case 0
  then show ?case by simp
next
  case (Suc n)
  note [simp del] = MainLoop.simps
  note M = Suc.prems [unfolded MainLoop.simps(2)]
  let ?s1 = "fprintf_stderr ''ready> '' s"
  consider (eof) "CurTok ?s1 = tok_eof"
    | (semi) "CurTok ?s1 \<noteq> tok_eof" "CurTok ?s1 = 59"
    | (def) "CurTok ?s1 \<noteq> tok_eof" "CurTok ?s1 \<noteq> 59" "CurTok ?s1 = tok_def"
    | (ext) "CurTok ?s1 \<noteq> tok_eof" "CurTok ?s1 \<noteq> 59" "CurTok ?s1 \<noteq> tok_def"
        "f = part_001 \<and> CurTok ?s1 = tok_extern"
    | (top) "CurTok ?s1 \<noteq> tok_eof" "CurTok ?s1 \<noteq> 59" "CurTok ?s1 \<noteq> tok_def"
        "\<not> (f = part_001 \<and> CurTok ?s1 = tok_extern)"
    by blast
  then show ?case
  proof cases
    case eof
    with M show ?thesis by (subst MainLoop.simps(2)) (simp add: Let_def)
  next
    case semi
    with M have "MainLoop f n (snd (getNextToken ?s1)) = Some r" by (simp add: Let_def)
    from Suc.IH [OF this] semi show ?thesis
      by (subst MainLoop.simps(2)) (simp add: Let_def)
  next
    case def
    with M obtain s2 where h: "HandleDefinition f n ?s1 = Some s2"
      and m: "MainLoop f n s2 = Some r"
      by (auto simp: Let_def split: option.splits)
    from HandleDefinition_Suc [OF h] Suc.IH [OF m] def show ?thesis
      by (subst MainLoop.simps(2)) (simp add: Let_def)
  next
    case ext
    with M have "MainLoop f n (HandleExtern f ?s1) = Some r" by (simp add: Let_def)
    from Suc.IH [OF this] ext show ?thesis
      by (subst MainLoop.simps(2)) (simp add: Let_def)
  next
    case top
    with M obtain s2 where h: "HandleTopLevelExpression f n ?s1 = Some s2"
      and m: "MainLoop f n s2 = Some r"
      by (auto simp: Let_def split: option.splits)
    from HandleTopLevelExpression_Suc [OF h] Suc.IH [OF m] top show ?thesis
      by (subst MainLoop.simps(2)) (auto simp: Let_def)
  qed
qed

lemma MainLoop_bound_mono:
  assumes "n \<le> m" and "MainLoop f n s = Some r"
  shows "MainLoop f m s = Some r"
  using assms
proof (induction rule: dec_induct)
  case base
  then show ?case .
next
  case (step m)
  then show ?case by (intro MainLoop_Suc) blast
qed


section \<open>The claims\<close>

subsection \<open>Precedence of the current token\<close>

text \<open>
  C1. The lookup is to return the registered positive precedence of an operator character
  and \<open>-1\<close> for every other token; with the default table \<open>+\<close> gives 20. The second file
  does so (\<open>GetTokPrecedence_part_001\<close>). In \<open>main.cpp\<close> the guard is inverted: once
  \<open>1\<close> has been read from \<open>1+2\<close> the current token is \<open>+\<close>, the table holds 20 for it, and
  \<open>main.cpp\<close> answers \<open>-1\<close> where the second file answers 20.
\<close>

theorem GetTokPrecedence_main_cpp_plus:
  "CurTok (advance (startup ''1+2'')) = of_char CHR ''+'' \<and>
   BinopPrecedence (advance (startup ''1+2'')) CHR ''+'' = Some 20 \<and>
   fst (GetTokPrecedence main_cpp (advance (startup ''1+2''))) = - 1 \<and>
   fst (GetTokPrecedence part_001 (advance (startup ''1+2''))) = 20"
  by (simp add: lex_eval parse_eval)


subsection \<open>Binary expressions\<close>

text \<open>
  C2. \<open>1+2*3\<close> is to parse to \<open>+\<close> over \<open>1\<close> and the product. With the lookup of
  \<open>main.cpp\<close> the climbing loop sees \<open>-1\<close> at \<open>+\<close> and returns at once: for every bound of
  at least 2 the result is the literal \<open>1\<close> alone, and \<open>+\<close> is left as the current token.
\<close>

theorem ParseExpression_main_cpp_sum_product:
  "map_option fst (ParseExpression main_cpp (n + 2) (startup ''1+2*3'')) =
     Some (Some (NumberExprAST (Finite 1))) \<and>
   map_option (CurTok \<circ> snd) (ParseExpression main_cpp (n + 2) (startup ''1+2*3'')) =
     Some (of_char CHR ''+'')"
  by (simp add: bound_unfold lex_eval parse_eval)

text \<open>The second file builds the tree of the claim and reads the whole input.\<close>

lemma ParseExpression_part_001_sum_product:
  "map_option fst (ParseExpression part_001 (n + 4) (startup ''1+2*3'')) =
     Some (Some (BinaryExprAST CHR ''+'' (NumberExprAST (Finite 1))
                   (BinaryExprAST CHR ''*'' (NumberExprAST (Finite 2))
                      (NumberExprAST (Finite 3))))) \<and>
   map_option (CurTok \<circ> snd) (ParseExpression part_001 (n + 4) (startup ''1+2*3'')) =
     Some tok_eof"
  by (simp add: bound_unfold lex_eval parse_eval)

text \<open>
  C3. \<open>1-2-3\<close> is to parse to the left-leaning tree. \<open>main.cpp\<close> again returns the literal
  \<open>1\<close> and stops before the first \<open>-\<close>.
\<close>

theorem ParseExpression_main_cpp_difference:
  "map_option fst (ParseExpression main_cpp (n + 2) (startup ''1-2-3'')) =
     Some (Some (NumberExprAST (Finite 1))) \<and>
   map_option (CurTok \<circ> snd) (ParseExpression main_cpp (n + 2) (startup ''1-2-3'')) =
     Some (of_char CHR ''-'')"
  by (simp add: bound_unfold lex_eval parse_eval)

lemma ParseExpression_part_001_difference:
  "map_option fst (ParseExpression part_001 (n + 4) (startup ''1-2-3'')) =
     Some (Some (BinaryExprAST CHR ''-''
                   (BinaryExprAST CHR ''-'' (NumberExprAST (Finite 1))
                      (NumberExprAST (Finite 2)))
                   (NumberExprAST (Finite 3)))) \<and>
   map_option (CurTok \<circ> snd) (ParseExpression part_001 (n + 4) (startup ''1-2-3'')) =
     Some tok_eof"
  by (simp add: bound_unfold lex_eval parse_eval)


subsection \<open>Dispatch on \<open>extern\<close>\<close>

text \<open>
  C4. At \<open>extern\<close> the driver is to parse a prototype. \<open>main.cpp\<close> defines \<open>ParseExtern\<close>
  and \<open>HandleExtern\<close> but its \<open>switch\<close> never reaches them: on \<open>extern sin(x);\<close> it reports
  an unknown token, skips the keyword and then takes \<open>sin(x)\<close> for a top-level expression.
\<close>

theorem MainLoop_main_cpp_extern:
  "map_option stderr (main main_cpp (n + 12) ''extern sin(x);'') =
     Some [''ready> '', ''ready> '', ''Error: unknown token, expecting expression\<newline>'',
           ''ready> '', ''Parsed a top-level expr\<newline>'', ''ready> '', ''ready> '']"
  by (simp add: bound_unfold lex_eval parse_eval)

text \<open>The second file has the case: there the iteration is \<open>HandleExtern\<close>, and the
  prototype of \<open>sin\<close> reaches code generation.\<close>

lemma MainLoop_part_001_extern:
  "CurTok s = tok_extern \<Longrightarrow>
   MainLoop part_001 (Suc n) s =
     MainLoop part_001 n (HandleExtern part_001 (fprintf_stderr ''ready> '' s))"
  by (simp add: fprintf_stderr_def tok_defs)

lemma MainLoop_main_cpp_extern_step:
  "CurTok s = tok_extern \<Longrightarrow>
   MainLoop main_cpp (n + 4) s =
     MainLoop main_cpp (n + 3)
       (advance (LogError ''unknown token, expecting expression''
                   (fprintf_stderr ''ready> '' s)))"
  by (simp add: bound_unfold fprintf_stderr_def LogError_def tok_defs advance_def
      HandleTopLevelExpression_def ParseTopLevelExpr_def)

lemma main_part_001_extern:
  "map_option lowered (main part_001 (n + 6) ''extern sin(x);'') =
     Some [Extern (PrototypeAST ''sin'' [''x''])]"
  by (simp add: bound_unfold lex_eval parse_eval)

subsection \<open>The table under parsing\<close>

text \<open>
  C5 says that nothing done while parsing adds, removes or changes an entry of the
  precedence table. The lookup is written with \<open>operator[]\<close>, which inserts: in the second
  file, when \<open>(1)\<close> is parsed, the lookup at \<open>)\<close> adds an entry for \<open>)\<close>; in \<open>main.cpp\<close>,
  when \<open>1\<close> is parsed, the lookup at end of input adds one for the character 255.
\<close>

theorem GetTokPrecedence_inserts_counterexample:
  "CurTok (advance (advance (startup ''(1)''))) = of_char CHR '')'' \<and>
   BinopPrecedence (advance (advance (startup ''(1)''))) CHR '')'' = None \<and>
   BinopPrecedence (snd (GetTokPrecedence part_001 (advance (advance (startup ''(1)'')))))
     CHR '')'' = Some 0 \<and>
   CurTok (advance (startup ''1'')) = tok_eof \<and>
   BinopPrecedence (advance (startup ''1'')) (CHR 0xFF) = None \<and>
   BinopPrecedence (snd (GetTokPrecedence main_cpp (advance (startup ''1'')))) (CHR 0xFF) =
     Some 0"
  by (simp add: lex_eval parse_eval)

text \<open>
  C5, amended. A lookup leaves the state as it is or adds the current token's character,
  absent until then, with the value 0, and changes nothing else; after it every token has
  the precedence it had before. Reading a token does not touch the table. Over a whole
  run of the driver, in either file, no entry is removed or changed: the final table is
  the initial one with, possibly, absent keys added at 0.
\<close>

theorem BinopPrecedence_gains_only_zeros:
  "(snd (GetTokPrecedence f s) = s \<or>
     (BinopPrecedence s (char_of (CurTok s)) = None \<and>
      snd (GetTokPrecedence f s) =
        s\<lparr>BinopPrecedence := (BinopPrecedence s)(char_of (CurTok s) \<mapsto> 0)\<rparr>)) \<and>
   fst (GetTokPrecedence f (snd (GetTokPrecedence f s)\<lparr>CurTok := t\<rparr>)) =
     fst (GetTokPrecedence f (s\<lparr>CurTok := t\<rparr>)) \<and>
   BinopPrecedence (advance s) = BinopPrecedence s \<and>
   (MainLoop f n s = Some s' \<longrightarrow> zero_extension (BinopPrecedence s) (BinopPrecedence s'))"
  using GetTokPrecedence_state [where f = f and s = s]
    GetTokPrecedence_stable [where f = f and f' = f and s = s and t = t]
    getNextToken_BinopPrecedence [where s = s]
    MainLoop_zero_extension [where f = f and n = n and s = s and s' = s']
  by (simp add: advance_def)

theorem BinopPrecedence_gains_only_zeros_witness:
  "MainLoop part_001 8 (startup ''(1)'') \<noteq> None \<and>
   zero_extension (BinopPrecedence (startup ''(1)''))
     (BinopPrecedence (the (MainLoop part_001 8 (startup ''(1)''))))"
proof -
  have "MainLoop part_001 (n + 8) (startup ''(1)'') \<noteq> None" for n
    by (simp add: bound_unfold lex_eval parse_eval)
  from this [of 0] have "MainLoop part_001 8 (startup ''(1)'') \<noteq> None"
    by simp
  then obtain s' where run: "MainLoop part_001 8 (startup ''(1)'') = Some s'"
    by blast
  with BinopPrecedence_gains_only_zeros
         [where f = part_001 and s = "startup ''(1)''" and t = 0 and n = 8 and s' = s']
  show ?thesis by simp
qed


subsection \<open>A call cut short\<close>

text \<open>
  C6 says that \<open>foo(1,\<close> fails with the diagnostic that names the expected \<open>)\<close> or \<open>,\<close>.
  The comma is there, so the argument loop goes on to parse the next argument, and it is
  \<open>ParsePrimary\<close> that fails at end of input, with its own message. Nothing else is printed.
\<close>

lemma open_call_diagnostics:
  "map_option (stderr \<circ> snd) (ParseExpression f (n + 8) (startup ''foo(1,'')) =
     Some [''ready> '', ''Error: unknown token, expecting expression\<newline>'']"
  by (cases f) (simp_all add: bound_unfold lex_eval parse_eval)

theorem ParseExpression_open_call_counterexample:
  "map_option (stderr \<circ> snd) (ParseExpression part_001 8 (startup ''foo(1,'')) =
     Some [''ready> '', ''Error: unknown token, expecting expression\<newline>''] \<and>
   map_option (stderr \<circ> snd) (ParseExpression main_cpp 8 (startup ''foo(1,'')) =
     Some [''ready> '', ''Error: unknown token, expecting expression\<newline>'']"
  using open_call_diagnostics [of part_001 0] open_call_diagnostics [of main_cpp 0]
  by simp

text \<open>
  C6, amended. In either file and for every bound of at least 8, parsing \<open>foo(1,\<close> returns
  the null result, so no call node, and the one diagnostic is
  \<open>unknown token, expecting expression\<close>. The diagnostic that names \<open>)\<close> or \<open>,\<close> is what
  \<open>foo(1\<close>, without the comma, produces, again with a null result.
\<close>

theorem ParseExpression_open_call:
  "map_option fst (ParseExpression f (n + 8) (startup ''foo(1,'')) = Some None \<and>
   map_option (stderr \<circ> snd) (ParseExpression f (n + 8) (startup ''foo(1,'')) =
     Some [''ready> '', ''Error: unknown token, expecting expression\<newline>''] \<and>
   map_option fst (ParseExpression f (n + 8) (startup ''foo(1'')) = Some None \<and>
   map_option (stderr \<circ> snd) (ParseExpression f (n + 8) (startup ''foo(1'')) =
     Some [''ready> '', ''Error: Expected ')' or ',' in argument list\<newline>'']"
  by (cases f) (simp_all add: bound_unfold lex_eval parse_eval)


subsection \<open>Definitions and calls\<close>

text \<open>
  C7. \<open>def foo(a b) a+b\<close> is to give the function \<open>foo\<close> with parameters \<open>a\<close>, \<open>b\<close> and the
  body \<open>a+b\<close>. The prototype parser is as described (\<open>ParsePrototype_requires_name\<close>,
  \<open>ParsePrototype_requires_paren\<close>, \<open>ParsePrototype_accepts\<close>), and in \<open>main.cpp\<close> the
  prototype comes out as claimed, but the body is the variable \<open>a\<close> alone and \<open>+\<close> is left
  as the current token, since the lookup answers \<open>-1\<close> at \<open>+\<close>.
\<close>

theorem ParseDefinition_main_cpp_foo:
  "map_option fst (ParseDefinition main_cpp (n + 4) (startup ''def foo(a b) a+b'')) =
     Some (Some (FunctionAST (PrototypeAST ''foo'' [''a'', ''b'']) (VariableExprAST ''a''))) \<and>
   map_option (CurTok \<circ> snd) (ParseDefinition main_cpp (n + 4) (startup ''def foo(a b) a+b'')) =
     Some (of_char CHR ''+'')"
  by (simp add: bound_unfold lex_eval parse_eval)

lemma ParseDefinition_part_001_foo:
  "map_option fst (ParseDefinition part_001 (n + 6) (startup ''def foo(a b) a+b'')) =
     Some (Some (FunctionAST (PrototypeAST ''foo'' [''a'', ''b''])
                   (BinaryExprAST CHR ''+'' (VariableExprAST ''a'') (VariableExprAST ''b''))))"
  by (simp add: bound_unfold lex_eval parse_eval)

text \<open>
  C8. In either file and for every bound of at least 10, \<open>foo(1,2,3)\<close> as a top-level
  expression gives the call of \<open>foo\<close> with the arguments 1, 2, 3 in this order, wrapped in a
  function whose prototype has the empty name and no parameters; the whole input is read
  and nothing is reported.
\<close>

theorem ParseTopLevelExpr_call:
  "map_option fst (ParseTopLevelExpr f (n + 10) (startup ''foo(1,2,3)'')) =
     Some (Some (FunctionAST (PrototypeAST [] [])
                   (CallExprAST ''foo''
                      [NumberExprAST (Finite 1), NumberExprAST (Finite 2),
                       NumberExprAST (Finite 3)]))) \<and>
   map_option (CurTok \<circ> snd) (ParseTopLevelExpr f (n + 10) (startup ''foo(1,2,3)'')) =
     Some tok_eof \<and>
   map_option (stderr \<circ> snd) (ParseTopLevelExpr f (n + 10) (startup ''foo(1,2,3)'')) =
     Some [''ready> '']"
  by (cases f) (simp_all add: bound_unfold lex_eval parse_eval)


subsection \<open>Numbers\<close>

text \<open>
  C9. When the pending character is a digit or a dot and the unread input starts with a
  run of such characters that ends the input or is followed by another character, one
  call of \<open>getTok\<close> reads the pending character and the whole run, leaves the character
  after the run pending, and returns one number token whose value is \<open>strtod\<close> of the
  whole text. Nothing else of the state changes. \<open>strtod\<close> converts the longest numeric
  beginning, so \<open>1.2.3\<close> gives 1.2, which as a \<open>double\<close> is 5404319552844595 / 2 ^ 52, and
  a lone dot gives 0: see the witness.
\<close>

theorem getTok_number_run:
  assumes "isdigit (LastChar s) \<or> LastChar s = 46"
    and "stdin s = run @ rest"
    and "list_all numeric_char run"
    and "rest = [] \<or> \<not> numeric_char (hd rest)"
  shows "getTok s =
           (tok_number,
            s\<lparr>stdin := tl rest,
              LastChar := (if rest = [] then EOF else of_char (hd rest)),
              NumVal := strtod (char_of (LastChar s) # run)\<rparr>)"
proof -
  from assms(1) have ns: "\<not> isspace (LastChar s)" and na: "\<not> isalpha (LastChar s)"
    by (auto simp: ctype_defs)
  from ns have ws: "skip_whitespace (LastChar s) (stdin s) = (LastChar s, stdin s)"
    by (cases "stdin s") simp_all
  show ?thesis
    using assms(1) na ws read_number_run [OF assms(3,4), of "[]" "LastChar s"] assms(2)
    by (subst getTok.simps) (simp add: Let_def)
qed

theorem getTok_number_run_witness:
  "getTok \<lparr>stdin = ''.2.3+x'', LastChar = 49, IdentifierStr = [], NumVal = Finite 0, CurTok = 0,
      BinopPrecedence = Map.empty, stderr = [], lowered = []\<rparr> =
     (tok_number, \<lparr>stdin = ''x'', LastChar = 43, IdentifierStr = [],
      NumVal = Finite (5404319552844595 / 4503599627370496), CurTok = 0,
      BinopPrecedence = Map.empty, stderr = [], lowered = []\<rparr>) \<and>
   getTok \<lparr>stdin = [], LastChar = 46, IdentifierStr = [], NumVal = Finite 7, CurTok = 0,
      BinopPrecedence = Map.empty, stderr = [], lowered = []\<rparr> =
     (tok_number, \<lparr>stdin = [], LastChar = EOF, IdentifierStr = [], NumVal = Finite 0, CurTok = 0,
      BinopPrecedence = Map.empty, stderr = [], lowered = []\<rparr>)"
  using getTok_number_run [of "\<lparr>stdin = ''.2.3+x'', LastChar = 49, IdentifierStr = [], NumVal = Finite 0, CurTok = 0,
      BinopPrecedence = Map.empty, stderr = [], lowered = []\<rparr>" "''.2.3''" "''+x''"]
    getTok_number_run [of "\<lparr>stdin = [], LastChar = 46, IdentifierStr = [], NumVal = Finite 7, CurTok = 0,
      BinopPrecedence = Map.empty, stderr = [], lowered = []\<rparr>" "[]" "[]"]
  by (simp add: numeric_char_def lex_eval)

text \<open>More values: the text up to the second dot is what counts; a decimal that is no
  binary64 number is rounded, to even at a tie; a number beyond the range gives
  \<open>HUGE_VAL\<close>.\<close>

lemma getTok_number_examples:
  "fst (getTok (initial_state ''1.2.3'')) = tok_number"
  "NumVal (snd (getTok (initial_state ''1.2.3''))) =
     Finite (5404319552844595 / 4503599627370496)"
  "stdin (snd (getTok (initial_state ''1.2.3''))) = []"
  "fst (getTok (initial_state ''.'')) = tok_number"
  "NumVal (snd (getTok (initial_state ''.''))) = Finite 0"
  "NumVal (snd (getTok (initial_state ''..5''))) = Finite 0"
  "NumVal (snd (getTok (initial_state ''12.50.7 x''))) = Finite (25 / 2)"
  "NumVal (snd (getTok (initial_state ''0.1''))) =
     Finite (3602879701896397 / 36028797018963968)"
  "NumVal (snd (getTok (initial_state ''9007199254740993''))) = Finite 9007199254740992"
  "NumVal (snd (getTok (initial_state ''9007199254740995''))) = Finite 9007199254740996"
  by (simp_all add: initial_state_def lex_eval)

lemma strtod_out_of_range:
  "strtod ''200000000000000000000000000000000000000000000000000000000000000000000000000000000000000000000000000000000000000000000000000000000000000000000000000000000000000000000000000000000000000000000000000000000000000000000000000000000000000000000000000000000000000000000000000000000000000000000000000000000000000000000'' = HUGE_VAL"
  by (simp add: lex_eval)

lemma to_binary64_largest:
  "to_binary64 (2 ^ 1024 - 2 ^ 970 - 1) 1 = Finite (2 ^ 1024 - 2 ^ 971)"
  "to_binary64 (2 ^ 1024 - 2 ^ 970) 1 = HUGE_VAL"
  "to_binary64 (10 ^ 400) 1 = HUGE_VAL"
  "to_binary64 1 (2 ^ 1074) = Finite (1 / 2 ^ 1074)"
  "to_binary64 1 (2 ^ 1075) = Finite 0"
  "to_binary64 3 (2 ^ 1075) = Finite (2 / 2 ^ 1074)"
  by (simp_all add: lex_eval)


subsection \<open>No commas between parameters\<close>

text \<open>
  C10. Take any state at \<open>def\<close> from which the lexer delivers an identifier, \<open>(\<close>, any
  number of identifiers and then a comma, which is what \<open>def f(a, b) ...\<close> is.
  \<open>ParsePrototype\<close> stops with the comma as current token and fails with
  \<open>Expected ')' in prototype\<close>, and \<open>ParseDefinition\<close> returns the null result in that
  same state, whatever the file and the bound: the body is never looked at.
\<close>

theorem ParsePrototype_rejects_comma:
  assumes "CurTok s = tok_def"
    and "upcoming (k + 3) s = tok_identifier # 40 # replicate k tok_identifier @ [44]"
  shows "ParsePrototype (advance s) =
           (None, LogErrorP ''Expected ')' in prototype'' ((advance ^^ (k + 3)) s)) \<and>
         CurTok ((advance ^^ (k + 3)) s) = 44 \<and>
         ParseDefinition f n s =
           Some (None, LogErrorP ''Expected ')' in prototype'' ((advance ^^ (k + 3)) s))"
proof -
  let ?s1 = "advance s" and ?s2 = "advance (advance s)"
  have k3: "k + 3 = Suc (Suc (Suc k))" by simp
  from assms(2) have t1: "CurTok ?s1 = tok_identifier" and t2: "CurTok ?s2 = 40"
    and rest: "upcoming (Suc k) ?s2 = replicate k tok_identifier @ [44]"
    by (simp_all add: k3 advance_def)
  have final: "(advance ^^ (k + 3)) s = (advance ^^ Suc k) ?s2"
    by (simp add: k3 funpow_swap1)
  have "(44::int) \<noteq> tok_identifier" by (simp add: tok_defs)
  from read_ArgNames_identifiers [OF rest this]
  have ra: "snd (read_ArgNames [] ?s2) = (advance ^^ (k + 3)) s"
    by (simp only: final)
  have cur: "CurTok ((advance ^^ (k + 3)) s) = 44"
    using upcoming_last [OF rest] by (simp only: final)
  have pp: "ParsePrototype ?s1 =
      (None, LogErrorP ''Expected ')' in prototype'' ((advance ^^ (k + 3)) s))"
    using t1 t2 ra cur
    by (cases "read_ArgNames [] ?s2") (simp add: ParsePrototype_def Let_def advance_def)
  then have "ParseDefinition f n s =
      Some (None, LogErrorP ''Expected ')' in prototype'' ((advance ^^ (k + 3)) s))"
    by (simp add: ParseDefinition_def advance_def)
  with pp cur show ?thesis by simp
qed

theorem ParsePrototype_rejects_comma_witness:
  "CurTok (startup ''def f(a, b) a+b'') = tok_def \<and>
   upcoming 4 (startup ''def f(a, b) a+b'') = [tok_identifier, 40, tok_identifier, 44] \<and>
   map_option fst (ParseDefinition main_cpp 0 (startup ''def f(a, b) a+b'')) = Some None \<and>
   map_option (stderr \<circ> snd) (ParseDefinition main_cpp 0 (startup ''def f(a, b) a+b'')) =
     Some [''ready> '', ''Error: Expected ')' in prototype\<newline>'']"
proof -
  let ?s = "startup ''def f(a, b) a+b''"
  have four: "(4::nat) = Suc (Suc (Suc (Suc 0)))" by simp
  have cur: "CurTok ?s = tok_def"
    by (simp add: lex_eval parse_eval)
  have up: "upcoming 4 ?s = [tok_identifier, 40, tok_identifier, 44]"
    unfolding four by (simp add: lex_eval parse_eval)
  then have up': "upcoming (1 + 3) ?s = tok_identifier # 40 # replicate 1 tok_identifier @ [44]"
    by simp
  have err: "stderr (LogErrorP ''Expected ')' in prototype'' ((advance ^^ (1 + 3)) ?s)) =
      [''ready> '', ''Error: Expected ')' in prototype\<newline>'']"
    by (simp add: four lex_eval parse_eval)
  from ParsePrototype_rejects_comma [OF cur up', of main_cpp 0] cur up err
  show ?thesis by simp
qed

end
